theory Spec2Isabelle
  imports Main "HOL-Library.Sublist"
begin

section \<open>Fingerprint ids (main.go, line 147)\<close>

text \<open>
  The id of a local file is computed in the directory walk of \<open>Run\<close> as
  \<^verbatim>\<open>stripSpaces.ReplaceAllString(filepath.Base(d.Name()+"-"+strconv.FormatInt(info.Size(), 10)), "")\<close>
  with \<^verbatim>\<open>stripSpaces = regexp.MustCompile(`\s+`)\<close>.  Strings are byte lists.
  The three library functions are modelled after the Go standard library: the
  class \<^verbatim>\<open>\s\<close> of Go's regular expressions is tab, newline, form feed, carriage
  return and space; \<^verbatim>\<open>filepath.Base\<close> is the one of a system whose only
  separator is the slash; \<^verbatim>\<open>FormatInt(n, 10)\<close> writes a sign and the decimal
  digits.
\<close>

definition isSpace :: "char \<Rightarrow> bool" where
  "isSpace c = (c \<in> set [CHR 0x09, CHR 0x0A, CHR 0x0C, CHR 0x0D, CHR '' ''])"

text \<open>
  \<^verbatim>\<open>ReplaceAllString\<close> for the pattern \<^verbatim>\<open>\s+\<close>: every maximal run of
  white space is replaced by \<open>repl\<close>, everything else is copied.
\<close>

function ReplaceAllString :: "string \<Rightarrow> string \<Rightarrow> string" where
  "ReplaceAllString [] repl = []"
| "ReplaceAllString (c # cs) repl =
     (if isSpace c then repl @ ReplaceAllString (dropWhile isSpace cs) repl
      else c # ReplaceAllString cs repl)"
  by pat_completeness auto
termination
  by (relation "measure (\<lambda>(s, repl). length s)")
     (auto simp: less_Suc_eq_le length_dropWhile_le)

definition stripSpaces :: "string \<Rightarrow> string" where
  "stripSpaces s = ReplaceAllString s []"

text \<open>
  \<^verbatim>\<open>filepath.Base\<close>: the empty path gives a dot; trailing slashes are removed;
  the last element is what follows the last slash; a path of slashes only gives
  a slash.
\<close>

definition Base :: "string \<Rightarrow> string" where
  "Base p =
     (if p = [] then ''.''
      else let q = rev (dropWhile (\<lambda>c. c = CHR ''/'') (rev p));
               e = rev (takeWhile (\<lambda>c. c \<noteq> CHR ''/'') (rev q))
           in if e = [] then ''/'' else e)"

definition digit :: "nat \<Rightarrow> char" where
  "digit d = ''0123456789'' ! d"

function FormatUint :: "nat \<Rightarrow> string" where
  "FormatUint n = (if n < 10 then [digit n] else FormatUint (n div 10) @ [digit (n mod 10)])"
  by pat_completeness auto
termination
  by (relation "measure (\<lambda>n. n)") auto

declare FormatUint.simps [simp del]

definition FormatInt :: "int \<Rightarrow> string" where
  "FormatInt i = (if i < 0 then CHR ''-'' # FormatUint (nat (- i)) else FormatUint (nat i))"

text \<open>The number a string of decimal digits stands for, to check \<open>FormatUint\<close> against.\<close>

definition decimal_value :: "string \<Rightarrow> nat" where
  "decimal_value s = foldl (\<lambda>v c. 10 * v + (of_char c - 48)) 0 s"

text \<open>
  The id of a directory entry with name \<open>name\<close> (\<^verbatim>\<open>d.Name()\<close>) and size
  \<open>sz\<close> (\<^verbatim>\<open>info.Size()\<close>, an \<^verbatim>\<open>int64\<close>; no arithmetic is done on it).
\<close>

definition fingerprint :: "string \<Rightarrow> int \<Rightarrow> string" where
  "fingerprint name sz = stripSpaces (Base (name @ ''-'' @ FormatInt sz))"

section \<open>Collaborators of the orchestrator\<close>

text \<open>
  Modelled from the spec: the type \<^verbatim>\<open>immich.StringList\<close> of \<^verbatim>\<open>app.OnLineAssets\<close>
  is not part of main.go.  Section 4.1 of the specification gives its contract:
  \<^verbatim>\<open>contains(id)\<close> is true if the id was claimed before or was part of the
  initial inventory, \<^verbatim>\<open>claim(id)\<close> marks the id as claimed, may be called for an
  id that is present, and cannot fail; each call is one serialisation point.
  main.go calls them \<^verbatim>\<open>Includes\<close> and \<^verbatim>\<open>Push\<close>.
\<close>

type_synonym StringList = "string list"

definition Includes :: "StringList \<Rightarrow> string \<Rightarrow> bool" where
  "Includes l s = (s \<in> set l)"

definition Push :: "StringList \<Rightarrow> string \<Rightarrow> StringList" where
  "Push l s = l @ [s]"

text \<open>
  Modelled from the spec: the errors of \<^verbatim>\<open>app.Immich.AssetUpload\<close> (package
  \<^verbatim>\<open>immich\<close>, not part of main.go).  Section 6 lists four disjoint failures:
  local read error, unsupported media, systemic overload, and any other error.
  \<^verbatim>\<open>errors.Is(err, t)\<close> for the three targets of lines 212 and 214 is the test
  for the constructor.  The value \<open>None\<close> is Go's \<^verbatim>\<open>nil\<close> error.
\<close>

datatype upload_error = LocalFileError | UnsupportedMedia | TooManyInternalError | OtherError string

text \<open>
  Modelled from the spec: the type \<^verbatim>\<open>Worker\<close> with \<^verbatim>\<open>NewWorker\<close>, \<^verbatim>\<open>Run\<close> and
  \<^verbatim>\<open>Push\<close> is not part of main.go.  By section 4.3 of the specification the
  pool runs a fixed number of executors, each taking one submitted unit of work
  and running it to completion before taking the next; a submission enqueues
  one unit and never blocks; the function that \<^verbatim>\<open>Run\<close> returns (\<^verbatim>\<open>stop\<close>)
  returns once every submitted unit has run to completion.  The pool is the
  list of the closures pushed so far (the field \<open>Worker\<close> below), in the order
  of their submission, each with the place it stands at.
\<close>

text \<open>
  Go's channel \<^verbatim>\<open>app.tooManyServerErrors\<close>: \<^verbatim>\<open>nil\<close> until line 182 makes it,
  then open; nothing is ever sent on it.  The built-in \<^verbatim>\<open>close\<close> panics on a
  nil and on a closed channel.  A receive succeeds at once on a closed channel
  and blocks on an open or nil one, in which case the \<^verbatim>\<open>select\<close> of line 186
  takes its \<^verbatim>\<open>default\<close> branch.
\<close>

datatype chan = NilChan | Open | Closed

datatype halt = Panic string | Blocked

definition close :: "chan \<Rightarrow> halt + chan" where
  "close c =
     (case c of
        NilChan \<Rightarrow> Inl (Panic ''close of nil channel'')
      | Open \<Rightarrow> Inr Closed
      | Closed \<Rightarrow> Inl (Panic ''close of closed channel''))"

definition can_receive :: "chan \<Rightarrow> bool" where
  "can_receive c = (c = Closed)"

section \<open>The state of a run\<close>

record localAsset =
  ID :: string
  Fsys :: string
  Path :: string

text \<open>One constructor for each \<^verbatim>\<open>Println\<close> of lines 149 to 224, with the values it prints.\<close>

datatype log_line =
    WalkAlreadyUploaded string
  | NoLocalAssets
  | IndexingComplete nat
  | TooManyServerErrors
  | IsAlreadyUploaded string
  | HaveBeenAlreadyUploaded string
  | CantUploadYellow string upload_error
  | CantUploadRed string
  | ErrorRed upload_error
  | UploadedLine string int

text \<open>
  The closure that \<open>Upload\<close> pushes returns no value.  The outcome names the
  \<^verbatim>\<open>return\<close> it left by: line 206, line 220 after 213, after 215, after 217
  and 218, and the end of the closure.
\<close>

datatype outcome = Uploaded | SkippedAlreadyClaimed | SkippedUnsupported | FailedFatal | FailedOther

text \<open>
  Where a pushed closure stands: waiting in the pool, before line 204, 208,
  209, before line 211 with the error \<^verbatim>\<open>AssetUpload\<close> returned, before line 224,
  or after its return.
\<close>

datatype task_pc =
    Queued
  | AtIncludes
  | AtPush
  | AtAssetUpload
  | AtErrCheck "upload_error option"
  | AtPrintln
  | Finished outcome

text \<open>
  Where \<open>Run\<close> stands: at the \<^verbatim>\<open>select\<close> of line 186 for the head of the
  remaining range, before line 191, before line 195, in \<^verbatim>\<open>stop()\<close> of line 198,
  or returned with the error it returns (\<open>None\<close> is \<^verbatim>\<open>nil\<close>).
\<close>

datatype run_pc = AtSelect | AtLoopIncludes | AtUpload | AtStop | Returned "string option"

text \<open>
  The fields of \<^verbatim>\<open>Application\<close> that lines 147 to 231 use.  \<open>Worker\<close> is the
  list of the closures pushed so far, each with the asset it captured and the
  place it stands at.  \<open>localAssets\<close> is the local variable of \<open>Run\<close>: during
  the walk the list built so far, in the loop of line 185 the part of the range
  not yet left behind (its head is \<open>a\<close>).  \<open>calls\<close> is a history variable:
  the pool indices of the closures that have called \<^verbatim>\<open>AssetUpload\<close>, in order.
  \<open>mediaCount\<close> is an \<^verbatim>\<open>atomic.Int64\<close>; it is only ever incremented by one
  for a finished upload, so it is an unbounded integer here.
\<close>

record Application =
  Yes :: bool
  Threads :: nat
  OnLineAssets :: StringList
  Logger :: "log_line list"
  Worker :: "(localAsset \<times> task_pc) list"
  mediaCount :: int
  tooManyServerErrors :: chan
  localAssets :: "localAsset list"
  run_at :: run_pc
  calls :: "nat list"

definition Println :: "log_line \<Rightarrow> Application \<Rightarrow> Application" where
  "Println l app = app\<lparr>Logger := Logger app @ [l]\<rparr>"

definition at :: "nat \<Rightarrow> task_pc \<Rightarrow> Application \<Rightarrow> Application" where
  "at i pc app = app\<lparr>Worker := (Worker app)[i := (fst (Worker app ! i), pc)]\<rparr>"

section \<open>The directory walk (lines 142 to 157) and the start of the upload (lines 164 to 182)\<close>

text \<open>
  The callback of \<^verbatim>\<open>fs.WalkDir\<close> for a file whose \<^verbatim>\<open>Info\<close> succeeded: \<open>fsys\<close>
  stands for \<^verbatim>\<open>os.DirFS(p)\<close>, \<open>path\<close> is the path inside it, \<open>name\<close> is
  \<^verbatim>\<open>d.Name()\<close> and \<open>sz\<close> is \<^verbatim>\<open>info.Size()\<close>.
\<close>

definition walk_file :: "string \<Rightarrow> string \<Rightarrow> string \<Rightarrow> int \<Rightarrow> Application \<Rightarrow> Application" where
  "walk_file fsys path name sz app =
     (let id = fingerprint name sz in
      if Includes (OnLineAssets app) id
      then Println (WalkAlreadyUploaded path) app
      else app\<lparr>localAssets := localAssets app @ [\<lparr>ID = id, Fsys = fsys, Path = path\<rparr>]\<rparr>)"

text \<open>
  Lines 164 to 182, after the walk.  \<open>reply\<close> is the word read from the
  standard input when \<^verbatim>\<open>app.Yes\<close> is false; \<^verbatim>\<open>strings.ToUpper(s) != "Y"\<close> holds
  for every word but \<^verbatim>\<open>y\<close> and \<^verbatim>\<open>Y\<close>.
\<close>

definition start_upload :: "string \<Rightarrow> Application \<Rightarrow> Application" where
  "start_upload reply app =
     (if localAssets app = []
      then (Println NoLocalAssets app)\<lparr>run_at := Returned None\<rparr>
      else let app1 = Println (IndexingComplete (length (localAssets app))) app in
        if \<not> Yes app1 \<and> reply \<noteq> ''y'' \<and> reply \<noteq> ''Y''
        then app1\<lparr>run_at := Returned (Some ''Abort Upload Process'')\<rparr>
        else app1\<lparr>Worker := [], tooManyServerErrors := Open, run_at := AtSelect\<rparr>)"

section \<open>The dispatcher loop (lines 184 to 199)\<close>

fun is_finished :: "task_pc \<Rightarrow> bool" where
  "is_finished (Finished _) = True"
| "is_finished _ = False"

text \<open>
  One step of \<open>Run\<close>: the \<^verbatim>\<open>select\<close> of line 186, the test of line 191, the
  call of line 195 (which pushes the closure for \<open>a\<close>), or the return of
  \<^verbatim>\<open>stop()\<close> followed by the return of \<open>Run\<close> with \<^verbatim>\<open>err\<close>, which is \<^verbatim>\<open>nil\<close>
  there (line 159 has returned every other value).  After the \<^verbatim>\<open>break\<close> of
  line 189 the candidates that are left stay in \<open>localAssets\<close>, unvisited.  A
  step that cannot be taken yet is \<open>Blocked\<close>.
\<close>

definition Run_step :: "Application \<Rightarrow> halt + Application" where
  "Run_step app =
     (case run_at app of
        AtSelect \<Rightarrow>
          (case localAssets app of
             [] \<Rightarrow> Inr (app\<lparr>run_at := AtStop\<rparr>)
           | a # rest \<Rightarrow>
               if can_receive (tooManyServerErrors app)
               then Inr ((Println TooManyServerErrors app)\<lparr>run_at := AtStop\<rparr>)
               else Inr (app\<lparr>run_at := AtLoopIncludes\<rparr>))
      | AtLoopIncludes \<Rightarrow>
          (case localAssets app of
             [] \<Rightarrow> Inl Blocked
           | a # rest \<Rightarrow>
               if Includes (OnLineAssets app) (ID a)
               then Inr ((Println (IsAlreadyUploaded (Base (Path a))) app)
                           \<lparr>localAssets := rest, run_at := AtSelect\<rparr>)
               else Inr (app\<lparr>run_at := AtUpload\<rparr>))
      | AtUpload \<Rightarrow>
          (case localAssets app of
             [] \<Rightarrow> Inl Blocked
           | a # rest \<Rightarrow>
               Inr (app\<lparr>Worker := Worker app @ [(a, Queued)], localAssets := rest,
                        run_at := AtSelect\<rparr>))
      | AtStop \<Rightarrow>
          if list_all (\<lambda>t. is_finished (snd t)) (Worker app)
          then Inr (app\<lparr>run_at := Returned None\<rparr>)
          else Inl Blocked
      | Returned err \<Rightarrow> Inl Blocked)"

section \<open>The upload closure (lines 203 to 230)\<close>

fun busy :: "task_pc \<Rightarrow> bool" where
  "busy Queued = False"
| "busy (Finished _) = False"
| "busy _ = True"

text \<open>
  One step of the closure with pool index \<open>i\<close>.  \<open>AssetUpload n a\<close> is what
  the remote service answers to the call number \<open>n\<close> of the run, made for the
  asset \<open>a\<close>.  A queued closure starts when fewer than \<open>Threads\<close> closures
  are running (section 4.3: a fixed number of executors); which of the queued
  closures starts is left to the schedule.
\<close>

definition Upload_step ::
  "(nat \<Rightarrow> localAsset \<Rightarrow> upload_error option) \<Rightarrow> nat \<Rightarrow> Application \<Rightarrow> halt + Application" where
  "Upload_step AssetUpload i app =
     (if length (Worker app) \<le> i then Inl Blocked
      else let a = fst (Worker app ! i) in
        case snd (Worker app ! i) of
          Queued \<Rightarrow>
            if length (filter (\<lambda>t. busy (snd t)) (Worker app)) < Threads app
            then Inr (at i AtIncludes app)
            else Inl Blocked
        | AtIncludes \<Rightarrow>
            if Includes (OnLineAssets app) (ID a)
            then Inr (at i (Finished SkippedAlreadyClaimed)
                       (Println (HaveBeenAlreadyUploaded (Base (Path a))) app))
            else Inr (at i AtPush app)
        | AtPush \<Rightarrow>
            Inr (at i AtAssetUpload (app\<lparr>OnLineAssets := Push (OnLineAssets app) (ID a)\<rparr>))
        | AtAssetUpload \<Rightarrow>
            Inr (at i (AtErrCheck (AssetUpload (length (calls app)) a))
                   (app\<lparr>calls := calls app @ [i]\<rparr>))
        | AtErrCheck err \<Rightarrow>
            (case err of
               Some e \<Rightarrow>
                 if e = LocalFileError \<or> e = UnsupportedMedia
                 then Inr (at i (Finished SkippedUnsupported)
                            (Println (CantUploadYellow (Path a) e) app))
                 else if e = TooManyInternalError
                 then (case close (tooManyServerErrors app) of
                         Inl h \<Rightarrow> Inl h
                       | Inr c \<Rightarrow>
                           Inr (at i (Finished FailedFatal) (app\<lparr>tooManyServerErrors := c\<rparr>)))
                 else Inr (at i (Finished FailedOther)
                            (Println (ErrorRed e) (Println (CantUploadRed (Path a)) app)))
             | None \<Rightarrow> Inr (at i AtPrintln (app\<lparr>mediaCount := mediaCount app + 1\<rparr>)))
        | AtPrintln \<Rightarrow>
            Inr (at i (Finished Uploaded)
                   (Println (UploadedLine (Base (Path a)) (mediaCount app)) app))
        | Finished out \<Rightarrow> Inl Blocked)"

section \<open>Runs\<close>

text \<open>
  A run interleaves steps of \<open>Run\<close> and of the pushed closures.  A schedule
  names who takes each step; a panic ends the program.
\<close>

datatype event = Dispatch | Work nat

fun step :: "(nat \<Rightarrow> localAsset \<Rightarrow> upload_error option) \<Rightarrow> event \<Rightarrow> Application \<Rightarrow> halt + Application" where
  "step AssetUpload Dispatch app = Run_step app"
| "step AssetUpload (Work i) app = Upload_step AssetUpload i app"

fun exec :: "(nat \<Rightarrow> localAsset \<Rightarrow> upload_error option) \<Rightarrow> event list \<Rightarrow> Application \<Rightarrow> halt + Application" where
  "exec AssetUpload [] app = Inr app"
| "exec AssetUpload (e # es) app =
     (case step AssetUpload e app of
        Inl h \<Rightarrow> Inl h
      | Inr app' \<Rightarrow> exec AssetUpload es app')"

text \<open>
  The application after the inventory of line 121 has been fetched, before the
  walk.  (\<open>run_at\<close> has no meaning until \<open>start_upload\<close> sets it.)
\<close>

definition indexed :: "bool \<Rightarrow> nat \<Rightarrow> StringList \<Rightarrow> Application" where
  "indexed y n inventory =
     \<lparr>Yes = y, Threads = n, OnLineAssets = inventory, Logger = [], Worker = [],
      mediaCount = 0, tooManyServerErrors = NilChan, localAssets = [],
      run_at = AtSelect, calls = []\<rparr>"

section \<open>Predicates on places and log lines\<close>

text \<open>The line that the loop of \<open>Run\<close> prints for a candidate it skips (line 192).\<close>

fun is_loop_skip :: "log_line \<Rightarrow> bool" where
  "is_loop_skip (IsAlreadyUploaded _) = True"
| "is_loop_skip _ = False"

text \<open>
  Places of a closure: \<open>called\<close> holds after the call of line 209 has been
  made, \<open>claimed\<close> after line 208, \<open>counted\<close> after line 223.
\<close>

fun called :: "task_pc \<Rightarrow> bool" where
  "called (AtErrCheck _) = True"
| "called AtPrintln = True"
| "called (Finished out) = (out \<noteq> SkippedAlreadyClaimed)"
| "called _ = False"

fun claimed :: "task_pc \<Rightarrow> bool" where
  "claimed AtAssetUpload = True"
| "claimed pc = called pc"

fun counted :: "task_pc \<Rightarrow> bool" where
  "counted AtPrintln = True"
| "counted (Finished out) = (out = Uploaded)"
| "counted _ = False"

text \<open>
  What holds of the pool in every run that starts with an empty pool: a closure
  past line 208 has its id in the registry, a closure that returned by line 206
  has printed the line of line 205, the closures that are in the history of
  remote calls are those past line 209, and the history names closures of the
  pool only.
\<close>

definition closures_ok :: "Application \<Rightarrow> bool" where
  "closures_ok app =
     ((\<forall>i < length (Worker app).
         (claimed (snd (Worker app ! i)) \<longrightarrow> Includes (OnLineAssets app) (ID (fst (Worker app ! i)))) \<and>
         (snd (Worker app ! i) = Finished SkippedAlreadyClaimed \<longrightarrow>
            HaveBeenAlreadyUploaded (Base (Path (fst (Worker app ! i)))) \<in> set (Logger app)) \<and>
         ((i \<in> set (calls app)) = called (snd (Worker app ! i)))) \<and>
      (\<forall>i \<in> set (calls app). i < length (Worker app)))"

text \<open>
  \<open>admitted\<close> holds of a closure that has found its id absent at line 204 and
  has not returned by line 206.  \<open>one_at_a_time\<close> is what holds of the pool
  in every run with at most one executor that starts with an empty pool: at
  most one closure is running, and of the closures for one id at most one is
  admitted.
\<close>

fun admitted :: "task_pc \<Rightarrow> bool" where
  "admitted AtPush = True"
| "admitted pc = claimed pc"

definition one_at_a_time :: "Application \<Rightarrow> bool" where
  "one_at_a_time app =
     (closures_ok app \<and> Threads app \<le> 1 \<and>
      length (filter (\<lambda>t. busy (snd t)) (Worker app)) \<le> 1 \<and>
      (\<forall>i < length (Worker app). \<forall>j < length (Worker app).
         i \<noteq> j \<and> ID (fst (Worker app ! i)) = ID (fst (Worker app ! j)) \<longrightarrow>
         \<not> (admitted (snd (Worker app ! i)) \<and> admitted (snd (Worker app ! j)))))"

text \<open>A line that prints the upload counter (line 224 is the only one).\<close>

fun prints_counter :: "log_line \<Rightarrow> bool" where
  "prints_counter (UploadedLine _ _) = True"
| "prints_counter _ = False"

section \<open>States of the scenarios of section 8 of the specification\<close>

text \<open>
  The assets that the walk builds for the files \<open>b.jpg\<close> and \<open>sub/b.jpg\<close> of
  size 200, \<open>c.jpg\<close> of size 1 and \<open>d.jpg\<close> of size 2 under the root \<open>/p\<close>,
  and two remote services: one that answers every call with the overload
  error, one that answers every call with some other error.
\<close>

definition b_jpg :: localAsset where
  "b_jpg = \<lparr>ID = ''b.jpg-200'', Fsys = ''/p'', Path = ''b.jpg''\<rparr>"

definition sub_b_jpg :: localAsset where
  "sub_b_jpg = \<lparr>ID = ''b.jpg-200'', Fsys = ''/p'', Path = ''sub/b.jpg''\<rparr>"

definition c_jpg :: localAsset where
  "c_jpg = \<lparr>ID = ''c.jpg-1'', Fsys = ''/p'', Path = ''c.jpg''\<rparr>"

definition d_jpg :: localAsset where
  "d_jpg = \<lparr>ID = ''d.jpg-2'', Fsys = ''/p'', Path = ''d.jpg''\<rparr>"

definition always_overloaded :: "nat \<Rightarrow> localAsset \<Rightarrow> upload_error option" where
  "always_overloaded n a = Some TooManyInternalError"

definition always_times_out :: "nat \<Rightarrow> localAsset \<Rightarrow> upload_error option" where
  "always_times_out n a = Some (OtherError ''timeout'')"

text \<open>
  Scenario A: the inventory holds \<open>a.jpg-100\<close>; the walk meets \<open>a.jpg\<close> of
  size 100 and then \<open>b.jpg\<close>; one executor.  \<open>seeded_claimed\<close>: the closure
  for \<open>b.jpg\<close> has executed line 208 and \<open>Run\<close> is back at the \<^verbatim>\<open>select\<close>;
  \<open>seeded_drained\<close>: \<open>Run\<close> waits in \<^verbatim>\<open>stop()\<close> and the closure has run to
  its end.
\<close>

definition seeded :: Application where
  "seeded = start_upload []
     (walk_file ''/p'' ''b.jpg'' ''b.jpg'' 200
       (walk_file ''/p'' ''a.jpg'' ''a.jpg'' 100 (indexed True 1 [''a.jpg-100''])))"

definition seeded_claimed :: Application where
  "seeded_claimed =
     \<lparr>Yes = True, Threads = 1, OnLineAssets = [''a.jpg-100'', ''b.jpg-200''],
      Logger = [WalkAlreadyUploaded ''a.jpg'', IndexingComplete 1],
      Worker = [(b_jpg, AtAssetUpload)],
      mediaCount = 0, tooManyServerErrors = Open, localAssets = [],
      run_at = AtSelect, calls = []\<rparr>"

definition seeded_drained :: Application where
  "seeded_drained =
     \<lparr>Yes = True, Threads = 1, OnLineAssets = [''a.jpg-100'', ''b.jpg-200''],
      Logger = [WalkAlreadyUploaded ''a.jpg'', IndexingComplete 1, UploadedLine ''b.jpg'' 1],
      Worker = [(b_jpg, Finished Uploaded)],
      mediaCount = 1, tooManyServerErrors = Open, localAssets = [],
      run_at = AtStop, calls = [0]\<rparr>"

text \<open>
  Scenario B: the walk meets \<open>b.jpg\<close> and \<open>sub/b.jpg\<close>, the inventory is
  empty, two executors.  \<open>twins_first_claimed\<close>: the first closure has executed
  line 208 and \<open>Run\<close> stands before line 191 for the second file;
  \<open>twins_second_skipped\<close>: \<open>Run\<close> has skipped the second file;
  \<open>twins_both_uploaded\<close>: both closures were pushed and have run to their end;
  \<open>twins_failed\<close>: the upload of the first file has returned an error that the
  closure has not looked at yet; \<open>twins_failure_handled\<close>: it has.
\<close>

definition twins :: Application where
  "twins = start_upload []
     (walk_file ''/p'' ''sub/b.jpg'' ''b.jpg'' 200
       (walk_file ''/p'' ''b.jpg'' ''b.jpg'' 200 (indexed True 2 [])))"

definition twins_first_claimed :: Application where
  "twins_first_claimed =
     \<lparr>Yes = True, Threads = 2, OnLineAssets = [''b.jpg-200''],
      Logger = [IndexingComplete 2],
      Worker = [(b_jpg, AtAssetUpload)],
      mediaCount = 0, tooManyServerErrors = Open, localAssets = [sub_b_jpg],
      run_at = AtLoopIncludes, calls = []\<rparr>"

definition twins_second_skipped :: Application where
  "twins_second_skipped =
     \<lparr>Yes = True, Threads = 2, OnLineAssets = [''b.jpg-200''],
      Logger = [IndexingComplete 2, IsAlreadyUploaded ''b.jpg''],
      Worker = [(b_jpg, AtAssetUpload)],
      mediaCount = 0, tooManyServerErrors = Open, localAssets = [],
      run_at = AtSelect, calls = []\<rparr>"

definition twins_both_uploaded :: Application where
  "twins_both_uploaded =
     \<lparr>Yes = True, Threads = 2, OnLineAssets = [''b.jpg-200'', ''b.jpg-200''],
      Logger = [IndexingComplete 2, UploadedLine ''b.jpg'' 2, UploadedLine ''b.jpg'' 2],
      Worker = [(b_jpg, Finished Uploaded), (sub_b_jpg, Finished Uploaded)],
      mediaCount = 2, tooManyServerErrors = Open, localAssets = [],
      run_at = AtSelect, calls = [0, 1]\<rparr>"

definition twins_failed :: Application where
  "twins_failed =
     \<lparr>Yes = True, Threads = 2, OnLineAssets = [''b.jpg-200''],
      Logger = [IndexingComplete 2],
      Worker = [(b_jpg, AtErrCheck (Some (OtherError ''timeout'')))],
      mediaCount = 0, tooManyServerErrors = Open, localAssets = [sub_b_jpg],
      run_at = AtLoopIncludes, calls = [0]\<rparr>"

definition twins_failure_handled :: Application where
  "twins_failure_handled =
     \<lparr>Yes = True, Threads = 2, OnLineAssets = [''b.jpg-200''],
      Logger = [IndexingComplete 2, CantUploadRed ''b.jpg'', ErrorRed (OtherError ''timeout'')],
      Worker = [(b_jpg, Finished FailedOther)],
      mediaCount = 0, tooManyServerErrors = Open, localAssets = [sub_b_jpg],
      run_at = AtLoopIncludes, calls = [0]\<rparr>"

text \<open>
  Scenario B with one executor.  \<open>twins_single_done\<close>: both closures were
  pushed and have run to their end, one after the other.
\<close>

definition twins_single :: Application where
  "twins_single = start_upload []
     (walk_file ''/p'' ''sub/b.jpg'' ''b.jpg'' 200
       (walk_file ''/p'' ''b.jpg'' ''b.jpg'' 200 (indexed True 1 [])))"

definition twins_single_done :: Application where
  "twins_single_done =
     \<lparr>Yes = True, Threads = 1, OnLineAssets = [''b.jpg-200''],
      Logger = [IndexingComplete 2, UploadedLine ''b.jpg'' 1, HaveBeenAlreadyUploaded ''b.jpg''],
      Worker = [(b_jpg, Finished Uploaded), (sub_b_jpg, Finished SkippedAlreadyClaimed)],
      mediaCount = 1, tooManyServerErrors = Open, localAssets = [],
      run_at = AtSelect, calls = [0]\<rparr>"

text \<open>
  Scenario C: the walk meets \<open>c.jpg\<close> and \<open>d.jpg\<close>, the inventory is empty,
  one executor.  \<open>overloaded_tripped\<close>: the closure for \<open>c.jpg\<close> has closed the
  channel and \<open>Run\<close> stands at the \<^verbatim>\<open>select\<close> for \<open>d.jpg\<close>;
  \<open>overloaded_stopped\<close>: \<open>Run\<close> has then returned.
  \<open>overloaded_raced\<close>: \<open>Run\<close> had passed the \<^verbatim>\<open>select\<close> for \<open>d.jpg\<close> when
  the closure for \<open>c.jpg\<close> closed the channel; \<open>overloaded_late\<close>: the channel
  is closed and the closure for \<open>d.jpg\<close> waits in the pool;
  \<open>overloaded_second_failed\<close>: that closure holds the overload error that its
  call has returned.
\<close>

definition two_files :: Application where
  "two_files = start_upload []
     (walk_file ''/p'' ''d.jpg'' ''d.jpg'' 2
       (walk_file ''/p'' ''c.jpg'' ''c.jpg'' 1 (indexed True 1 [])))"

definition overloaded_tripped :: Application where
  "overloaded_tripped =
     \<lparr>Yes = True, Threads = 1, OnLineAssets = [''c.jpg-1''],
      Logger = [IndexingComplete 2],
      Worker = [(c_jpg, Finished FailedFatal)],
      mediaCount = 0, tooManyServerErrors = Closed, localAssets = [d_jpg],
      run_at = AtSelect, calls = [0]\<rparr>"

definition overloaded_stopped :: Application where
  "overloaded_stopped =
     \<lparr>Yes = True, Threads = 1, OnLineAssets = [''c.jpg-1''],
      Logger = [IndexingComplete 2, TooManyServerErrors],
      Worker = [(c_jpg, Finished FailedFatal)],
      mediaCount = 0, tooManyServerErrors = Closed, localAssets = [d_jpg],
      run_at = Returned None, calls = [0]\<rparr>"

definition overloaded_raced :: Application where
  "overloaded_raced =
     \<lparr>Yes = True, Threads = 1, OnLineAssets = [''c.jpg-1''],
      Logger = [IndexingComplete 2],
      Worker = [(c_jpg, Finished FailedFatal)],
      mediaCount = 0, tooManyServerErrors = Closed, localAssets = [d_jpg],
      run_at = AtLoopIncludes, calls = [0]\<rparr>"

definition overloaded_late :: Application where
  "overloaded_late =
     \<lparr>Yes = True, Threads = 1, OnLineAssets = [''c.jpg-1''],
      Logger = [IndexingComplete 2],
      Worker = [(c_jpg, Finished FailedFatal), (d_jpg, Queued)],
      mediaCount = 0, tooManyServerErrors = Closed, localAssets = [],
      run_at = AtSelect, calls = [0]\<rparr>"

definition overloaded_second_failed :: Application where
  "overloaded_second_failed =
     \<lparr>Yes = True, Threads = 1, OnLineAssets = [''c.jpg-1'', ''d.jpg-2''],
      Logger = [IndexingComplete 2],
      Worker = [(c_jpg, Finished FailedFatal), (d_jpg, AtErrCheck (Some TooManyInternalError))],
      mediaCount = 0, tooManyServerErrors = Closed, localAssets = [],
      run_at = AtSelect, calls = [0, 1]\<rparr>"

section \<open>Properties of the fingerprint\<close>

lemma ReplaceAllString_empty: "ReplaceAllString s [] = filter (\<lambda>c. \<not> isSpace c) s"
proof (induction s "[] :: string" rule: ReplaceAllString.induct)
  case 1
  show ?case by simp
next
  case (2 c cs)
  have drop: "filter (\<lambda>c. \<not> isSpace c) (dropWhile isSpace cs) = filter (\<lambda>c. \<not> isSpace c) cs"
    by (induction cs) auto
  show ?case
  proof (cases "isSpace c")
    case True
    with 2 drop show ?thesis by simp
  next
    case False
    with 2 show ?thesis by simp
  qed
qed

lemma FormatUint_chars: "set (FormatUint n) \<subseteq> set ''0123456789''"
proof (induction n rule: FormatUint.induct)
  case (1 n)
  have d: "\<And>k. k < 10 \<Longrightarrow> digit k \<in> set ''0123456789''"
    unfolding digit_def by (rule nth_mem) simp
  show ?case
  proof (cases "n < 10")
    case True
    then show ?thesis using d[of n] by (subst FormatUint.simps) simp
  next
    case False
    then show ?thesis using 1 d[of "n mod 10"] by (subst FormatUint.simps) simp
  qed
qed

lemma FormatUint_no_slash: "CHR ''/'' \<notin> set (FormatUint n)"
  using FormatUint_chars[of n] by auto

lemma FormatInt_no_slash: "CHR ''/'' \<notin> set (FormatInt sz)"
  by (simp add: FormatInt_def FormatUint_no_slash)

lemma Base_single: "p \<noteq> [] \<Longrightarrow> CHR ''/'' \<notin> set p \<Longrightarrow> Base p = p"
proof -
  assume ne: "p \<noteq> []" and ns: "CHR ''/'' \<notin> set p"
  have 1: "dropWhile (\<lambda>c. c = CHR ''/'') (rev p) = rev p"
    using ne ns by (cases "rev p") auto
  have 2: "takeWhile (\<lambda>c. c \<noteq> CHR ''/'') (rev p) = rev p"
    using ns by (auto simp: takeWhile_eq_all_conv)
  show ?thesis using ne by (simp add: Base_def 1 2 Let_def)
qed

lemma fingerprint_eq:
  "CHR ''/'' \<notin> set name \<Longrightarrow>
   fingerprint name sz = filter (\<lambda>c. \<not> isSpace c) (name @ ''-'' @ FormatInt sz)"
  using FormatInt_no_slash[of sz]
  by (simp add: fingerprint_def stripSpaces_def ReplaceAllString_empty Base_single)

lemma digit_value: "k < 10 \<Longrightarrow> of_char (digit k) - 48 = k"
proof -
  assume "k < 10"
  then have "k \<in> {0,1,2,3,4,5,6,7,8,9}" by auto
  then show ?thesis by (auto simp: digit_def)
qed

lemma FormatUint_decimal: "decimal_value (FormatUint n) = n"
proof (induction n rule: FormatUint.induct)
  case (1 n)
  show ?case
  proof (cases "n < 10")
    case True
    then show ?thesis by (subst FormatUint.simps) (simp add: decimal_value_def digit_value)
  next
    case False
    then have "decimal_value (FormatUint (n div 10)) = n div 10" using 1 by simp
    with False show ?thesis
      by (subst FormatUint.simps) (simp add: decimal_value_def digit_value)
  qed
qed

text \<open>
  Claim C8.  For a directory entry whose name holds no slash (as every name of
  an entry does), the id is the name, a hyphen and the size in decimal, with
  every white space character removed.  The id depends on nothing else: two
  files of the same name and size that the walk meets get the same id (or are
  both skipped because the inventory holds it), and once that id is pushed to
  the registry, the registry includes the id of the other file.
\<close>

theorem fingerprint_name_and_size:
  "CHR ''/'' \<notin> set name \<Longrightarrow>
   fingerprint name sz = filter (\<lambda>c. \<not> isSpace c) (name @ ''-'' @ FormatInt sz) \<and>
   map ID (localAssets (walk_file f2 p2 name sz (walk_file f1 p1 name sz app))) =
     map ID (localAssets app) @
       (if Includes (OnLineAssets app) (fingerprint name sz) then []
        else [fingerprint name sz, fingerprint name sz]) \<and>
   Includes (Push (OnLineAssets app) (fingerprint name sz)) (fingerprint name sz)"
  by (simp add: fingerprint_eq walk_file_def Println_def Let_def Includes_def Push_def)

theorem fingerprint_name_and_size_witness:
  "CHR ''/'' \<notin> set ''my photo.jpg'' \<and>
   fingerprint ''my photo.jpg'' 1234 = ''myphoto.jpg-1234'' \<and>
   map ID (localAssets (walk_file ''/q'' ''x/my photo.jpg'' ''my photo.jpg'' 1234
      (walk_file ''/p'' ''my photo.jpg'' ''my photo.jpg'' 1234 (indexed True 2 [])))) =
     [''myphoto.jpg-1234'', ''myphoto.jpg-1234'']"
proof -
  have h: "CHR ''/'' \<notin> set ''my photo.jpg''" by simp
  have e: "filter (\<lambda>c. \<not> isSpace c) (''my photo.jpg'' @ ''-'' @ FormatInt 1234) = ''myphoto.jpg-1234''"
    by code_simp
  have i: "localAssets (indexed True 2 []) = []" "OnLineAssets (indexed True 2 []) = []"
    by (simp_all add: indexed_def)
  from fingerprint_name_and_size[OF h, of 1234 "''/q''" "''x/my photo.jpg''" "''/p''" "''my photo.jpg''" "indexed True 2 []"]
  show ?thesis unfolding e i by (simp add: Includes_def)
qed

section \<open>Invariants of runs\<close>

lemma exec_invariant:
  assumes inv: "\<And>e s s'. step A e s = Inr s' \<Longrightarrow> P s \<Longrightarrow> P s'"
    and run: "exec A es app = Inr app'" and start: "P app"
  shows "P app'"
  using run start
proof (induction es arbitrary: app)
  case Nil
  then show ?case by simp
next
  case (Cons e es)
  then obtain s where s: "step A e app = Inr s" and rest: "exec A es s = Inr app'"
    by (auto split: sum.splits)
  from inv[OF s Cons.prems(2)] Cons.IH[OF rest] show ?case by simp
qed

lemma map_fst_update: "map fst (xs[i := (fst (xs ! i), pc)]) = map fst xs"
  by (cases "i < length xs") (simp_all add: map_update list_update_same_conv list_update_beyond)

lemma Run_step_frame:
  "Run_step app = Inr app' \<Longrightarrow>
   OnLineAssets app' = OnLineAssets app \<and> mediaCount app' = mediaCount app \<and>
   calls app' = calls app \<and> tooManyServerErrors app' = tooManyServerErrors app \<and>
   Threads app' = Threads app"
  by (auto simp: Run_step_def Println_def split: run_pc.splits list.splits if_splits)

lemma Upload_step_frame:
  "Upload_step A i app = Inr app' \<Longrightarrow>
   run_at app' = run_at app \<and> localAssets app' = localAssets app \<and>
   map fst (Worker app') = map fst (Worker app) \<and> Threads app' = Threads app \<and>
   filter is_loop_skip (Logger app') = filter is_loop_skip (Logger app)"
  by (auto simp: Upload_step_def at_def Println_def Let_def map_fst_update
      split: task_pc.splits option.splits if_splits sum.splits)

lemma step_registry:
  "step A e app = Inr app' \<Longrightarrow>
   OnLineAssets app' = OnLineAssets app \<or> (\<exists>x. OnLineAssets app' = Push (OnLineAssets app) x)"
proof (cases e)
  case Dispatch
  assume "step A e app = Inr app'"
  with Dispatch show ?thesis using Run_step_frame[of app app'] by simp
next
  case (Work i)
  assume "step A e app = Inr app'"
  with Work show ?thesis
    by (auto simp: Upload_step_def at_def Println_def Let_def
        split: task_pc.splits option.splits if_splits sum.splits)
qed

lemma exec_registry:
  "exec A es app = Inr app' \<Longrightarrow> \<exists>ys. OnLineAssets app' = OnLineAssets app @ ys"
proof (induction es arbitrary: app)
  case Nil
  then show ?case by simp
next
  case (Cons e es)
  then obtain s where s: "step A e app = Inr s" and rest: "exec A es s = Inr app'"
    by (auto split: sum.splits)
  from step_registry[OF s] obtain xs where "OnLineAssets s = OnLineAssets app @ xs"
    by (auto simp: Push_def)
  moreover from Cons.IH[OF rest] obtain ys where "OnLineAssets app' = OnLineAssets s @ ys" ..
  ultimately show ?case by simp
qed

lemma step_closed:
  "step A e app = Inr app' \<Longrightarrow> tooManyServerErrors app = Closed \<Longrightarrow> tooManyServerErrors app' = Closed"
proof (cases e)
  case Dispatch
  assume "step A e app = Inr app'" "tooManyServerErrors app = Closed"
  with Dispatch show ?thesis using Run_step_frame[of app app'] by simp
next
  case (Work i)
  assume "step A e app = Inr app'" "tooManyServerErrors app = Closed"
  with Work show ?thesis
    by (auto simp: Upload_step_def at_def Println_def Let_def close_def
        split: task_pc.splits option.splits if_splits sum.splits)
qed

text \<open>
  Claim C9.  In every run the registry only grows: a run leaves the list of
  ids it started with in place and appends to it, so an id that the registry
  includes at some time is included at every later time of the run.  (A step
  of the run changes the registry by a \<open>Push\<close> or not at all.)
\<close>

theorem registry_only_grows:
  "exec A es app = Inr app' \<Longrightarrow>
   (\<exists>ys. OnLineAssets app' = OnLineAssets app @ ys) \<and>
   (\<forall>x. Includes (OnLineAssets app) x \<longrightarrow> Includes (OnLineAssets app') x)"
  using exec_registry[of A es app app'] by (auto simp: Includes_def)

theorem registry_only_grows_witness:
  "exec (\<lambda>n a. None) [Dispatch, Dispatch, Dispatch, Work 0, Work 0, Work 0] seeded
     = Inr seeded_claimed \<and>
   OnLineAssets seeded = [''a.jpg-100''] \<and>
   OnLineAssets seeded_claimed = [''a.jpg-100'', ''b.jpg-200''] \<and>
   Includes (OnLineAssets seeded) ''a.jpg-100'' \<and>
   Includes (OnLineAssets seeded_claimed) ''a.jpg-100''"
proof -
  have run: "exec (\<lambda>n a. None) [Dispatch, Dispatch, Dispatch, Work 0, Work 0, Work 0] seeded
      = Inr seeded_claimed"
    by code_simp
  have before: "OnLineAssets seeded = [''a.jpg-100'']"
    by code_simp
  have after: "OnLineAssets seeded_claimed = [''a.jpg-100'', ''b.jpg-200'']"
    by (simp add: seeded_claimed_def)
  have inc: "Includes (OnLineAssets seeded) ''a.jpg-100''"
    by (simp add: before Includes_def)
  from registry_only_grows[OF run] inc
  have "Includes (OnLineAssets seeded_claimed) ''a.jpg-100''" by blast
  with run before after inc show ?thesis by simp
qed

lemma step_after_trip:
  assumes "step A e app = Inr app'" and "tooManyServerErrors app = Closed"
    and "run_at app \<noteq> AtLoopIncludes" and "run_at app \<noteq> AtUpload"
  shows "tooManyServerErrors app' = Closed \<and> run_at app' \<noteq> AtLoopIncludes \<and> run_at app' \<noteq> AtUpload \<and>
    map fst (Worker app') = map fst (Worker app) \<and> localAssets app' = localAssets app \<and>
    filter is_loop_skip (Logger app') = filter is_loop_skip (Logger app)"
proof (cases e)
  case Dispatch
  with assms show ?thesis
    by (auto simp: Run_step_def Println_def can_receive_def split: run_pc.splits list.splits if_splits)
next
  case (Work i)
  with assms show ?thesis
    using Upload_step_frame[of A i app app'] step_closed[of A e app app'] by simp
qed

lemma exec_after_trip:
  assumes "exec A es app = Inr app'" and "tooManyServerErrors app = Closed"
    and "run_at app \<noteq> AtLoopIncludes" and "run_at app \<noteq> AtUpload"
  shows "map fst (Worker app') = map fst (Worker app) \<and> localAssets app' = localAssets app \<and>
    filter is_loop_skip (Logger app') = filter is_loop_skip (Logger app)"
proof -
  let ?P = "\<lambda>s. tooManyServerErrors s = Closed \<and> run_at s \<noteq> AtLoopIncludes \<and> run_at s \<noteq> AtUpload \<and>
    map fst (Worker s) = map fst (Worker app) \<and> localAssets s = localAssets app \<and>
    filter is_loop_skip (Logger s) = filter is_loop_skip (Logger app)"
  have "?P app'"
  proof (rule exec_invariant[where P = ?P, OF _ assms(1)])
    fix e s s'
    assume "step A e s = Inr s'" and "?P s"
    with step_after_trip[of A e s s'] show "?P s'" by simp
  next
    from assms show "?P app" by simp
  qed
  then show ?thesis by simp
qed

lemma step_late_submission:
  assumes "step A e app = Inr app'" and "tooManyServerErrors app = Closed"
  shows "tooManyServerErrors app' = Closed \<and>
    length (Worker app') + (if run_at app' = AtLoopIncludes \<or> run_at app' = AtUpload then 1 else 0)
    \<le> length (Worker app) + (if run_at app = AtLoopIncludes \<or> run_at app = AtUpload then 1 else 0)"
proof (cases e)
  case Dispatch
  with assms show ?thesis
    by (auto simp: Run_step_def Println_def can_receive_def split: run_pc.splits list.splits if_splits)
next
  case (Work i)
  with assms have u: "Upload_step A i app = Inr app'" by simp
  from Upload_step_frame[OF u] have "length (map fst (Worker app')) = length (map fst (Worker app))"
    and "run_at app' = run_at app" by simp_all
  with step_closed[OF assms] show ?thesis by simp
qed

lemma exec_late_submission:
  assumes "exec A es app = Inr app'" and "tooManyServerErrors app = Closed"
  shows "length (Worker app') \<le> length (Worker app) + 1"
proof -
  let ?b = "\<lambda>s. length (Worker s) + (if run_at s = AtLoopIncludes \<or> run_at s = AtUpload then 1 else 0)"
  let ?P = "\<lambda>s. tooManyServerErrors s = Closed \<and> ?b s \<le> ?b app"
  have "?P app'"
  proof (rule exec_invariant[where P = ?P, OF _ assms(1)])
    fix e s s'
    assume "step A e s = Inr s'" and "?P s"
    with step_late_submission[of A e s s'] show "?P s'" by linarith
  next
    from assms(2) show "?P app" by simp
  qed
  then show ?thesis by (simp split: if_splits)
qed

text \<open>
  Claim C3, amended.  When \<open>Run\<close> stands at the \<^verbatim>\<open>select\<close> of line 186 and the
  channel is closed, its step leaves the loop (it prints the line of line 188
  if a candidate is left and goes to \<^verbatim>\<open>stop()\<close>), and whatever the run does
  from then on, no closure is pushed any more, the candidates that were left
  stay where they are, unvisited, and no candidate is logged as skipped by the
  loop.  A candidate whose \<^verbatim>\<open>select\<close> ran before the channel was closed is
  still examined and may be pushed: from any state in which the channel is
  closed, a run pushes at most one more closure.
\<close>

theorem no_submission_after_trip_seen:
  assumes "tooManyServerErrors app = Closed" and "exec A es app = Inr app'"
  shows "length (Worker app') \<le> length (Worker app) + 1 \<and>
         (run_at app = AtSelect \<longrightarrow>
            Run_step app =
              Inr (if localAssets app = [] then app\<lparr>run_at := AtStop\<rparr>
                   else app\<lparr>Logger := Logger app @ [TooManyServerErrors], run_at := AtStop\<rparr>) \<and>
            map fst (Worker app') = map fst (Worker app) \<and>
            localAssets app' = localAssets app \<and>
            filter is_loop_skip (Logger app') = filter is_loop_skip (Logger app))"
proof -
  from assms(2,1) have most: "length (Worker app') \<le> length (Worker app) + 1"
    by (rule exec_late_submission)
  have seen: "Run_step app =
              Inr (if localAssets app = [] then app\<lparr>run_at := AtStop\<rparr>
                   else app\<lparr>Logger := Logger app @ [TooManyServerErrors], run_at := AtStop\<rparr>) \<and>
            map fst (Worker app') = map fst (Worker app) \<and>
            localAssets app' = localAssets app \<and>
            filter is_loop_skip (Logger app') = filter is_loop_skip (Logger app)"
    if "run_at app = AtSelect"
    using that assms exec_after_trip[of A es app app']
    by (simp add: Run_step_def can_receive_def Println_def split: list.splits)
  from most seen show ?thesis by blast
qed

theorem no_submission_after_trip_seen_witness:
  "exec always_overloaded [Dispatch, Dispatch, Dispatch, Work 0, Work 0, Work 0, Work 0, Work 0] two_files
     = Inr overloaded_tripped \<and>
   tooManyServerErrors overloaded_tripped = Closed \<and>
   run_at overloaded_tripped = AtSelect \<and>
   exec always_overloaded [Dispatch, Dispatch] overloaded_tripped = Inr overloaded_stopped \<and>
   Run_step overloaded_tripped =
     Inr (overloaded_tripped\<lparr>Logger := Logger overloaded_tripped @ [TooManyServerErrors],
                              run_at := AtStop\<rparr>) \<and>
   map fst (Worker overloaded_stopped) = map fst (Worker overloaded_tripped) \<and>
   localAssets overloaded_stopped = localAssets overloaded_tripped \<and>
   filter is_loop_skip (Logger overloaded_stopped) = filter is_loop_skip (Logger overloaded_tripped) \<and>
   length (Worker overloaded_stopped) \<le> length (Worker overloaded_tripped) + 1"
proof -
  have reach: "exec always_overloaded [Dispatch, Dispatch, Dispatch, Work 0, Work 0, Work 0, Work 0, Work 0]
      two_files = Inr overloaded_tripped"
    by code_simp
  have closed: "tooManyServerErrors overloaded_tripped = Closed"
    and head: "run_at overloaded_tripped = AtSelect"
    and left: "localAssets overloaded_tripped \<noteq> []"
    by (simp_all add: overloaded_tripped_def)
  have run: "exec always_overloaded [Dispatch, Dispatch] overloaded_tripped = Inr overloaded_stopped"
    by code_simp
  from no_submission_after_trip_seen[OF closed run] head left reach closed run
  show ?thesis by simp
qed

text \<open>
  Claim C3 as stated does not hold: in scenario C, \<open>Run\<close> passes the
  \<^verbatim>\<open>select\<close> for \<open>d.jpg\<close> while the channel is open, the closure for
  \<open>c.jpg\<close> then closes the channel, and \<open>Run\<close> goes on to push the closure
  for \<open>d.jpg\<close>.
\<close>

theorem late_submission_counterexample:
  "exec always_overloaded
     [Dispatch, Dispatch, Dispatch, Dispatch, Work 0, Work 0, Work 0, Work 0, Work 0] two_files
     = Inr overloaded_raced \<and>
   tooManyServerErrors overloaded_raced = Closed \<and>
   Worker overloaded_raced = [(c_jpg, Finished FailedFatal)] \<and>
   localAssets overloaded_raced = [d_jpg] \<and>
   exec always_overloaded [Dispatch, Dispatch] overloaded_raced = Inr overloaded_late \<and>
   tooManyServerErrors overloaded_late = Closed \<and>
   Worker overloaded_late = [(c_jpg, Finished FailedFatal), (d_jpg, Queued)]"
  by code_simp

lemma closures_ok_update:
  assumes ok: "closures_ok app" and j: "j < length (Worker app)"
    and W: "Worker app' = (Worker app)[j := (fst (Worker app ! j), pc')]"
    and R: "set (OnLineAssets app) \<subseteq> set (OnLineAssets app')"
    and L: "set (Logger app) \<subseteq> set (Logger app')"
    and C: "set (calls app') = set (calls app) \<or> set (calls app') = insert j (set (calls app))"
    and c1: "claimed pc' \<Longrightarrow> Includes (OnLineAssets app') (ID (fst (Worker app ! j)))"
    and c2: "pc' = Finished SkippedAlreadyClaimed \<Longrightarrow>
               HaveBeenAlreadyUploaded (Base (Path (fst (Worker app ! j)))) \<in> set (Logger app')"
    and c3: "(j \<in> set (calls app')) = called pc'"
  shows "closures_ok app'"
proof -
  have len: "length (Worker app') = length (Worker app)" using W by simp
  have bound: "\<forall>i \<in> set (calls app'). i < length (Worker app')"
    using ok C j len by (auto simp: closures_ok_def)
  have each: "(claimed (snd (Worker app' ! i)) \<longrightarrow>
                 Includes (OnLineAssets app') (ID (fst (Worker app' ! i)))) \<and>
              (snd (Worker app' ! i) = Finished SkippedAlreadyClaimed \<longrightarrow>
                 HaveBeenAlreadyUploaded (Base (Path (fst (Worker app' ! i)))) \<in> set (Logger app')) \<and>
              ((i \<in> set (calls app')) = called (snd (Worker app' ! i)))"
    if i: "i < length (Worker app')" for i
  proof (cases "i = j")
    case True
    with j W have "Worker app' ! i = (fst (Worker app ! j), pc')" by simp
    with c1 c2 c3 True show ?thesis by simp
  next
    case False
    with W have same: "Worker app' ! i = Worker app ! i" by simp
    from i len have i': "i < length (Worker app)" by simp
    from ok i' have
      o1: "claimed (snd (Worker app ! i)) \<longrightarrow> Includes (OnLineAssets app) (ID (fst (Worker app ! i)))"
      and o2: "snd (Worker app ! i) = Finished SkippedAlreadyClaimed \<longrightarrow>
         HaveBeenAlreadyUploaded (Base (Path (fst (Worker app ! i)))) \<in> set (Logger app)"
      and o3: "(i \<in> set (calls app)) = called (snd (Worker app ! i))"
      by (simp_all add: closures_ok_def)
    from C False have o4: "(i \<in> set (calls app')) = (i \<in> set (calls app))" by auto
    from o1 o2 o3 o4 R L show ?thesis unfolding same Includes_def by blast
  qed
  from each bound show ?thesis unfolding closures_ok_def by blast
qed

lemma closures_ok_push:
  assumes ok: "closures_ok app"
    and W: "Worker app' = Worker app @ [(a, Queued)]"
    and R: "OnLineAssets app' = OnLineAssets app"
    and L: "Logger app' = Logger app"
    and C: "calls app' = calls app"
  shows "closures_ok app'"
proof -
  have bound: "\<forall>i \<in> set (calls app'). i < length (Worker app')"
    using ok C W by (auto simp: closures_ok_def)
  have each: "(claimed (snd (Worker app' ! i)) \<longrightarrow>
                 Includes (OnLineAssets app') (ID (fst (Worker app' ! i)))) \<and>
              (snd (Worker app' ! i) = Finished SkippedAlreadyClaimed \<longrightarrow>
                 HaveBeenAlreadyUploaded (Base (Path (fst (Worker app' ! i)))) \<in> set (Logger app')) \<and>
              ((i \<in> set (calls app')) = called (snd (Worker app' ! i)))"
    if i: "i < length (Worker app')" for i
  proof (cases "i < length (Worker app)")
    case True
    with W have same: "Worker app' ! i = Worker app ! i" by (simp add: nth_append)
    from ok True show ?thesis unfolding same R L C by (simp add: closures_ok_def)
  next
    case False
    with i W have eq: "i = length (Worker app)" by simp
    with W have new: "Worker app' ! i = (a, Queued)" by simp
    from ok eq have "i \<notin> set (calls app)" by (auto simp: closures_ok_def)
    with new C show ?thesis by simp
  qed
  from each bound show ?thesis unfolding closures_ok_def by blast
qed

lemma closures_ok_frame:
  assumes ok: "closures_ok app"
    and W: "Worker app' = Worker app"
    and R: "OnLineAssets app' = OnLineAssets app"
    and L: "set (Logger app) \<subseteq> set (Logger app')"
    and C: "calls app' = calls app"
  shows "closures_ok app'"
  using ok L unfolding closures_ok_def W R C by blast

lemma Run_step_closures_ok:
  assumes "Run_step app = Inr app'" and "closures_ok app"
  shows "closures_ok app'"
proof (cases "run_at app = AtUpload")
  case True
  with assms(1) obtain a where "Worker app' = Worker app @ [(a, Queued)]"
    "OnLineAssets app' = OnLineAssets app" "Logger app' = Logger app" "calls app' = calls app"
    by (auto simp: Run_step_def split: list.splits)
  with assms(2) show ?thesis by (rule closures_ok_push)
next
  case False
  with assms(1) have "Worker app' = Worker app" "OnLineAssets app' = OnLineAssets app"
    "set (Logger app) \<subseteq> set (Logger app')" "calls app' = calls app"
    by (auto simp: Run_step_def Println_def split: run_pc.splits list.splits if_splits)
  with assms(2) show ?thesis by (rule closures_ok_frame)
qed

lemma Upload_step_closures_ok:
  assumes "Upload_step A j app = Inr app'" and "closures_ok app"
  shows "closures_ok app'"
proof -
  from assms(1) have j: "j < length (Worker app)"
    by (auto simp: Upload_step_def split: if_splits)
  obtain a pc where w: "Worker app ! j = (a, pc)" by (cases "Worker app ! j")
  from assms(2) j w have old: "claimed pc \<Longrightarrow> Includes (OnLineAssets app) (ID a)"
    "(j \<in> set (calls app)) = called pc"
    by (auto simp: closures_ok_def)
  have "\<exists>pc'. Worker app' = (Worker app)[j := (fst (Worker app ! j), pc')] \<and>
      set (OnLineAssets app) \<subseteq> set (OnLineAssets app') \<and>
      set (Logger app) \<subseteq> set (Logger app') \<and>
      (set (calls app') = set (calls app) \<or> set (calls app') = insert j (set (calls app))) \<and>
      (claimed pc' \<longrightarrow> Includes (OnLineAssets app') (ID (fst (Worker app ! j)))) \<and>
      (pc' = Finished SkippedAlreadyClaimed \<longrightarrow>
         HaveBeenAlreadyUploaded (Base (Path (fst (Worker app ! j)))) \<in> set (Logger app')) \<and>
      ((j \<in> set (calls app')) = called pc')"
  proof (cases pc)
    case Queued
    with assms(1) j w old show ?thesis
      by (auto simp: Upload_step_def at_def split: if_splits)
  next
    case AtIncludes
    with assms(1) j w old show ?thesis
      by (auto simp: Upload_step_def at_def Println_def split: if_splits)
  next
    case AtPush
    with assms(1) j w old show ?thesis
      by (auto simp: Upload_step_def at_def Includes_def Push_def)
  next
    case AtAssetUpload
    with assms(1) j w old show ?thesis
      by (auto simp: Upload_step_def at_def)
  next
    case (AtErrCheck err)
    with assms(1) j w old show ?thesis
      by (auto simp: Upload_step_def at_def Println_def close_def
          split: if_splits option.splits sum.splits chan.splits)
  next
    case AtPrintln
    with assms(1) j w old show ?thesis
      by (auto simp: Upload_step_def at_def Println_def)
  next
    case (Finished out)
    with assms(1) j w show ?thesis
      by (auto simp: Upload_step_def)
  qed
  then obtain pc' where "Worker app' = (Worker app)[j := (fst (Worker app ! j), pc')]"
      "set (OnLineAssets app) \<subseteq> set (OnLineAssets app')"
      "set (Logger app) \<subseteq> set (Logger app')"
      "set (calls app') = set (calls app) \<or> set (calls app') = insert j (set (calls app))"
      "claimed pc' \<Longrightarrow> Includes (OnLineAssets app') (ID (fst (Worker app ! j)))"
      "pc' = Finished SkippedAlreadyClaimed \<Longrightarrow>
         HaveBeenAlreadyUploaded (Base (Path (fst (Worker app ! j)))) \<in> set (Logger app')"
      "(j \<in> set (calls app')) = called pc'"
    by blast
  with assms(2) j show ?thesis by (rule closures_ok_update)
qed

lemma step_closures_ok: "step A e app = Inr app' \<Longrightarrow> closures_ok app \<Longrightarrow> closures_ok app'"
  by (cases e) (auto intro: Run_step_closures_ok Upload_step_closures_ok)

lemma exec_closures_ok: "exec A es app = Inr app' \<Longrightarrow> closures_ok app \<Longrightarrow> closures_ok app'"
  by (rule exec_invariant[where P = closures_ok]) (auto intro: step_closures_ok)

lemma fresh_closures_ok: "Worker app = [] \<Longrightarrow> calls app = [] \<Longrightarrow> closures_ok app"
  by (simp add: closures_ok_def)

lemma Run_step_Worker:
  "Run_step app = Inr app' \<Longrightarrow>
   Worker app' = Worker app \<or> (\<exists>a. Worker app' = Worker app @ [(a, Queued)])"
  by (auto simp: Run_step_def Println_def split: run_pc.splits list.splits if_splits)

lemma Upload_step_Worker:
  "Upload_step A j app = Inr app' \<Longrightarrow>
   j < length (Worker app) \<and> \<not> is_finished (snd (Worker app ! j)) \<and>
   (\<exists>pc'. Worker app' = (Worker app)[j := (fst (Worker app ! j), pc')])"
  by (auto simp: Upload_step_def at_def Println_def Let_def
      split: task_pc.splits option.splits if_splits sum.splits)

lemma step_finished_stable:
  assumes "step A e app = Inr app'" and "i < length (Worker app)"
    and "Worker app ! i = (a, Finished out)"
  shows "i < length (Worker app') \<and> Worker app' ! i = (a, Finished out)"
proof (cases e)
  case Dispatch
  with assms(1) have "Run_step app = Inr app'" by simp
  from Run_step_Worker[OF this] assms(2,3) show ?thesis by (auto simp: nth_append)
next
  case (Work j)
  with assms(1) have "Upload_step A j app = Inr app'" by simp
  from Upload_step_Worker[OF this] assms(2,3) show ?thesis
    by (cases "j = i") auto
qed

lemma exec_finished_stable:
  assumes "exec A es app = Inr app'" and "i < length (Worker app)"
    and "Worker app ! i = (a, Finished out)"
  shows "i < length (Worker app') \<and> Worker app' ! i = (a, Finished out)"
  by (rule exec_invariant[where P = "\<lambda>s. i < length (Worker s) \<and> Worker s ! i = (a, Finished out)",
        OF _ assms(1)])
     (use assms(2,3) step_finished_stable in auto)

lemma filter_update_length:
  "j < length xs \<Longrightarrow>
   length (filter P (xs[j := y])) + (if P (xs ! j) then 1 else 0) =
   length (filter P xs) + (if P y then 1 else 0)"
proof (induction xs arbitrary: j)
  case Nil
  then show ?case by simp
next
  case (Cons x xs)
  then show ?case by (cases j) auto
qed

lemma step_counted:
  assumes "step A e app = Inr app'"
  shows "mediaCount app' - int (length (filter (\<lambda>t. counted (snd t)) (Worker app'))) =
         mediaCount app - int (length (filter (\<lambda>t. counted (snd t)) (Worker app)))"
proof (cases e)
  case Dispatch
  with assms have r: "Run_step app = Inr app'" by simp
  from Run_step_Worker[OF r] Run_step_frame[OF r] show ?thesis by auto
next
  case (Work j)
  with assms have u: "Upload_step A j app = Inr app'" by simp
  then have j: "j < length (Worker app)" using Upload_step_Worker by blast
  obtain a pc where w: "Worker app ! j = (a, pc)" by (cases "Worker app ! j")
  have "\<exists>pc'. Worker app' = (Worker app)[j := (a, pc')] \<and>
      mediaCount app' + (if counted pc then 1 else 0) = mediaCount app + (if counted pc' then 1 else 0)"
    using u j w
    by (cases pc)
       (auto simp: Upload_step_def at_def Println_def
          split: if_splits option.splits sum.splits)
  then obtain pc' where W: "Worker app' = (Worker app)[j := (a, pc')]"
    and m: "mediaCount app' + (if counted pc then 1 else 0) = mediaCount app + (if counted pc' then 1 else 0)"
    by blast
  from filter_update_length[OF j, of "\<lambda>t. counted (snd t)" "(a, pc')"] w
  have "length (filter (\<lambda>t. counted (snd t)) (Worker app')) + (if counted pc then 1 else 0) =
        length (filter (\<lambda>t. counted (snd t)) (Worker app)) + (if counted pc' then 1 else 0)"
    unfolding W by simp
  with m show ?thesis by (auto split: if_splits)
qed

lemma exec_counted:
  assumes "exec A es app = Inr app'"
  shows "mediaCount app' - int (length (filter (\<lambda>t. counted (snd t)) (Worker app'))) =
         mediaCount app - int (length (filter (\<lambda>t. counted (snd t)) (Worker app)))"
  by (rule exec_invariant[where P = "\<lambda>s. mediaCount s - int (length (filter (\<lambda>t. counted (snd t)) (Worker s))) =
         mediaCount app - int (length (filter (\<lambda>t. counted (snd t)) (Worker app)))", OF _ assms])
     (use step_counted in auto)

lemma subseq_drop_one: "subseq (xs @ ys) (xs @ y # ys)"
  by (rule list_emb_append_mono) (auto intro: list_emb_Cons)

lemma step_range:
  "step A e app = Inr app' \<Longrightarrow>
   subseq (map fst (Worker app') @ localAssets app') (map fst (Worker app) @ localAssets app)"
proof (cases e)
  case Dispatch
  assume "step A e app = Inr app'"
  with Dispatch show ?thesis
    by (auto simp: Run_step_def Println_def subseq_drop_one
        split: run_pc.splits list.splits if_splits)
next
  case (Work i)
  assume "step A e app = Inr app'"
  with Work show ?thesis using Upload_step_frame[of A i app app'] by simp
qed

lemma exec_range:
  "exec A es app = Inr app' \<Longrightarrow>
   subseq (map fst (Worker app') @ localAssets app') (map fst (Worker app) @ localAssets app)"
proof (induction es arbitrary: app)
  case Nil
  then show ?case by simp
next
  case (Cons e es)
  then obtain s where s: "step A e app = Inr s" and rest: "exec A es s = Inr app'"
    by (auto split: sum.splits)
  from Cons.IH[OF rest] step_range[OF s] show ?case
    by (rule subseq_order.trans)
qed

lemma exec_Work_frame:
  "exec A (map Work js) app = Inr app' \<Longrightarrow>
   run_at app' = run_at app \<and> localAssets app' = localAssets app"
proof (induction js arbitrary: app)
  case Nil
  then show ?case by simp
next
  case (Cons j js)
  then obtain s where s: "Upload_step A j app = Inr s" and rest: "exec A (map Work js) s = Inr app'"
    by (auto split: sum.splits)
  from Cons.IH[OF rest] Upload_step_frame[OF s] show ?case by simp
qed

lemma finished_blocked:
  assumes "list_all (\<lambda>t. is_finished (snd t)) (Worker app)"
  shows "Upload_step A i app = Inl Blocked"
proof (cases "i < length (Worker app)")
  case True
  with assms have "is_finished (snd (Worker app ! i))" by (simp add: list_all_length)
  then obtain out where "snd (Worker app ! i) = Finished out"
    by (cases "snd (Worker app ! i)") auto
  with True show ?thesis by (simp add: Upload_step_def)
next
  case False
  then show ?thesis by (simp add: Upload_step_def)
qed

section \<open>The dispatcher\<close>

text \<open>
  Claim C7.  A candidate whose id the registry includes when it is examined is
  logged as already uploaded and goes no further.  In the walk (lines 148 to
  151) the only effect of the file is the log line: it is not appended to the
  list of local assets.  In the loop (lines 191 to 194) the step of \<open>Run\<close>
  appends the log line and moves on to the next candidate; the pool, the
  history of remote calls and the upload counter are as before, and whatever
  the run does afterwards, the closures in the pool and the candidates left
  are drawn, in order, from the closures pushed before and the candidates that
  followed the skipped one.
\<close>

theorem already_uploaded_is_skipped:
  "(Includes (OnLineAssets app) (fingerprint name sz) \<longrightarrow>
      walk_file fsys path name sz app = app\<lparr>Logger := Logger app @ [WalkAlreadyUploaded path]\<rparr>) \<and>
   (run_at app = AtLoopIncludes \<and> localAssets app = a # rest \<and> Includes (OnLineAssets app) (ID a) \<longrightarrow>
      Run_step app =
        Inr (app\<lparr>Logger := Logger app @ [IsAlreadyUploaded (Base (Path a))],
                 localAssets := rest, run_at := AtSelect\<rparr>) \<and>
      (\<forall>es app'. exec A (Dispatch # es) app = Inr app' \<longrightarrow>
         subseq (map fst (Worker app') @ localAssets app') (map fst (Worker app) @ rest)))"
proof -
  have walk: "Includes (OnLineAssets app) (fingerprint name sz) \<longrightarrow>
      walk_file fsys path name sz app = app\<lparr>Logger := Logger app @ [WalkAlreadyUploaded path]\<rparr>"
    by (simp add: walk_file_def Println_def)
  have loop: "Run_step app =
        Inr (app\<lparr>Logger := Logger app @ [IsAlreadyUploaded (Base (Path a))],
                 localAssets := rest, run_at := AtSelect\<rparr>) \<and>
      (\<forall>es app'. exec A (Dispatch # es) app = Inr app' \<longrightarrow>
         subseq (map fst (Worker app') @ localAssets app') (map fst (Worker app) @ rest))"
    if at: "run_at app = AtLoopIncludes" and range: "localAssets app = a # rest"
      and inc: "Includes (OnLineAssets app) (ID a)"
  proof -
    let ?s = "app\<lparr>Logger := Logger app @ [IsAlreadyUploaded (Base (Path a))],
                 localAssets := rest, run_at := AtSelect\<rparr>"
    from at range inc have skip: "Run_step app = Inr ?s"
      by (simp add: Run_step_def Println_def)
    have "subseq (map fst (Worker app') @ localAssets app') (map fst (Worker app) @ rest)"
      if run: "exec A (Dispatch # es) app = Inr app'" for es app'
    proof -
      from run skip have "exec A es ?s = Inr app'" by simp
      from exec_range[OF this] show ?thesis by simp
    qed
    with skip show ?thesis by blast
  qed
  from walk loop show ?thesis by blast
qed

theorem already_uploaded_is_skipped_witness:
  "fingerprint ''a.jpg'' 100 = ''a.jpg-100'' \<and>
   Includes (OnLineAssets (indexed True 1 [''a.jpg-100''])) (fingerprint ''a.jpg'' 100) \<and>
   walk_file ''/p'' ''a.jpg'' ''a.jpg'' 100 (indexed True 1 [''a.jpg-100'']) =
     (indexed True 1 [''a.jpg-100''])
       \<lparr>Logger := Logger (indexed True 1 [''a.jpg-100'']) @ [WalkAlreadyUploaded ''a.jpg'']\<rparr> \<and>
   run_at twins_first_claimed = AtLoopIncludes \<and>
   localAssets twins_first_claimed = [sub_b_jpg] \<and>
   Includes (OnLineAssets twins_first_claimed) (ID sub_b_jpg) \<and>
   Run_step twins_first_claimed = Inr twins_second_skipped \<and>
   Worker twins_second_skipped = Worker twins_first_claimed \<and>
   calls twins_second_skipped = calls twins_first_claimed \<and>
   mediaCount twins_second_skipped = mediaCount twins_first_claimed"
proof -
  let ?seed = "indexed True 1 [''a.jpg-100'']"
  have fp: "fingerprint ''a.jpg'' 100 = ''a.jpg-100''" by code_simp
  have inc: "Includes (OnLineAssets ?seed) (fingerprint ''a.jpg'' 100)"
    by (simp add: fp indexed_def Includes_def)
  have at: "run_at twins_first_claimed = AtLoopIncludes"
    and range: "localAssets twins_first_claimed = [sub_b_jpg]"
    and inc2: "Includes (OnLineAssets twins_first_claimed) (ID sub_b_jpg)"
    by (simp_all add: twins_first_claimed_def sub_b_jpg_def Includes_def)
  have skipped: "twins_first_claimed\<lparr>Logger := Logger twins_first_claimed @
        [IsAlreadyUploaded (Base (Path sub_b_jpg))], localAssets := [], run_at := AtSelect\<rparr>
      = twins_second_skipped"
    by code_simp
  have frame: "Worker twins_second_skipped = Worker twins_first_claimed"
    "calls twins_second_skipped = calls twins_first_claimed"
    "mediaCount twins_second_skipped = mediaCount twins_first_claimed"
    by (simp_all add: twins_second_skipped_def twins_first_claimed_def)
  note inst1 = already_uploaded_is_skipped[where app = ?seed and name = "''a.jpg''" and sz = 100
      and fsys = "''/p''" and path = "''a.jpg''"]
  note inst2 = already_uploaded_is_skipped[where app = twins_first_claimed and a = sub_b_jpg
      and rest = "[]"]
  from inst1 inc have walk: "walk_file ''/p'' ''a.jpg'' ''a.jpg'' 100 ?seed =
      ?seed\<lparr>Logger := Logger ?seed @ [WalkAlreadyUploaded ''a.jpg'']\<rparr>"
    by blast
  from inst2 at range inc2 have "Run_step twins_first_claimed =
        Inr (twins_first_claimed\<lparr>Logger := Logger twins_first_claimed @
          [IsAlreadyUploaded (Base (Path sub_b_jpg))], localAssets := [], run_at := AtSelect\<rparr>)"
    by blast
  then have loop: "Run_step twins_first_claimed = Inr twins_second_skipped"
    unfolding skipped .
  from fp inc walk at range inc2 loop frame show ?thesis by blast
qed

text \<open>
  Claim C4, amended.  When the range is exhausted or the channel is seen closed
  at the \<^verbatim>\<open>select\<close>, \<open>Run\<close> goes to \<^verbatim>\<open>stop()\<close>;
  while it waits there the closures take their steps; when \<^verbatim>\<open>stop()\<close> returns,
  every pushed closure has finished, and \<open>Run\<close> returns \<^verbatim>\<open>nil\<close> with the log
  and the counter as they are: it prints nothing, and no step follows.  (The
  counter is printed only by line 224, once for each finished upload.)
\<close>

theorem stop_then_return_nil:
  assumes "run_at app = AtSelect"
    and "localAssets app = [] \<or> tooManyServerErrors app = Closed"
    and "exec A (Dispatch # map Work js) app = Inr app1"
    and "Run_step app1 = Inr app2"
  shows "run_at app1 = AtStop \<and>
         list_all (\<lambda>t. is_finished (snd t)) (Worker app1) \<and>
         app2 = app1\<lparr>run_at := Returned None\<rparr> \<and>
         Logger app2 = Logger app1 \<and> mediaCount app2 = mediaCount app1 \<and>
         (\<forall>e. step A e app2 = Inl Blocked)"
proof -
  from assms(3) obtain s where s: "Run_step app = Inr s"
    and drain: "exec A (map Work js) s = Inr app1"
    by (auto split: sum.splits)
  from s assms(1,2) have "run_at s = AtStop"
    by (auto simp: Run_step_def can_receive_def split: list.splits)
  with exec_Work_frame[OF drain] have stop: "run_at app1 = AtStop" by simp
  with assms(4) have fin: "list_all (\<lambda>t. is_finished (snd t)) (Worker app1)"
    and ret: "app2 = app1\<lparr>run_at := Returned None\<rparr>"
    by (auto simp: Run_step_def split: if_splits)
  have "step A e app2 = Inl Blocked" for e
  proof (cases e)
    case Dispatch
    with ret show ?thesis by (simp add: Run_step_def)
  next
    case (Work i)
    from fin ret have "list_all (\<lambda>t. is_finished (snd t)) (Worker app2)" by simp
    from finished_blocked[OF this] Work show ?thesis by simp
  qed
  with stop fin ret show ?thesis by simp
qed

theorem stop_then_return_nil_witness:
  "run_at seeded_claimed = AtSelect \<and> localAssets seeded_claimed = [] \<and>
   exec (\<lambda>n a. None) (Dispatch # map Work [0, 0, 0]) seeded_claimed = Inr seeded_drained \<and>
   Run_step seeded_drained = Inr (seeded_drained\<lparr>run_at := Returned None\<rparr>) \<and>
   run_at seeded_drained = AtStop \<and>
   list_all (\<lambda>t. is_finished (snd t)) (Worker seeded_drained) \<and>
   Logger (seeded_drained\<lparr>run_at := Returned None\<rparr>) = Logger seeded_drained \<and>
   mediaCount (seeded_drained\<lparr>run_at := Returned None\<rparr>) = mediaCount seeded_drained \<and>
   step (\<lambda>n a. None) Dispatch (seeded_drained\<lparr>run_at := Returned None\<rparr>) = Inl Blocked \<and>
   step (\<lambda>n a. None) (Work 0) (seeded_drained\<lparr>run_at := Returned None\<rparr>) = Inl Blocked"
proof -
  have at: "run_at seeded_claimed = AtSelect"
    and range: "localAssets seeded_claimed = []"
    by (simp_all add: seeded_claimed_def)
  then have cause: "localAssets seeded_claimed = [] \<or> tooManyServerErrors seeded_claimed = Closed"
    by simp
  have drain: "exec (\<lambda>n a. None) (Dispatch # map Work [0, 0, 0]) seeded_claimed = Inr seeded_drained"
    by code_simp
  have ret: "Run_step seeded_drained = Inr (seeded_drained\<lparr>run_at := Returned None\<rparr>)"
    by code_simp
  from stop_then_return_nil[OF at cause drain ret] at range drain ret
  show ?thesis by simp
qed

text \<open>
  Claim C4 as stated does not hold: in the run of scenario C, which the closed
  channel ends, \<open>Run\<close> returns \<^verbatim>\<open>nil\<close> and the whole log is the line of line
  169 and the line of line 188.  No line prints the counter.
\<close>

theorem no_counter_report_counterexample:
  "exec always_overloaded
     [Dispatch, Dispatch, Dispatch, Work 0, Work 0, Work 0, Work 0, Work 0, Dispatch, Dispatch]
     two_files = Inr overloaded_stopped \<and>
   run_at overloaded_stopped = Returned None \<and>
   mediaCount overloaded_stopped = 0 \<and>
   Logger overloaded_stopped = [IndexingComplete 2, TooManyServerErrors] \<and>
   filter prints_counter (Logger overloaded_stopped) = []"
  by code_simp

section \<open>The upload closure\<close>

text \<open>
  Claim C5.  In every run that starts with an empty pool, a closure that stands
  before line 204 either finds its id in the registry, prints the line of line
  205 and returns (outcome \<open>SkippedAlreadyClaimed\<close>), or goes on to line 208;
  there it pushes its id; only then, at line 209 and with its id in the
  registry, does it call the remote service.  So a closure that has called the
  remote service has its id in the registry, and a closure that is queued, at
  line 204, 208 or 209, or has returned by line 206, has not called it; a
  closure that returned by line 206 has printed its line.
\<close>

theorem claim_before_upload:
  assumes "Worker app0 = []" and "calls app0 = []" and "exec A es app0 = Inr app"
    and "i < length (Worker app)" and "Worker app ! i = (a, pc)"
  shows
   "(pc = AtIncludes \<longrightarrow>
       Upload_step A i app =
         Inr (if Includes (OnLineAssets app) (ID a)
              then app\<lparr>Logger := Logger app @ [HaveBeenAlreadyUploaded (Base (Path a))],
                       Worker := (Worker app)[i := (a, Finished SkippedAlreadyClaimed)]\<rparr>
              else app\<lparr>Worker := (Worker app)[i := (a, AtPush)]\<rparr>)) \<and>
    (pc = AtPush \<longrightarrow>
       Upload_step A i app =
         Inr (app\<lparr>OnLineAssets := Push (OnLineAssets app) (ID a),
                  Worker := (Worker app)[i := (a, AtAssetUpload)]\<rparr>)) \<and>
    (pc = AtAssetUpload \<longrightarrow>
       Includes (OnLineAssets app) (ID a) \<and>
       Upload_step A i app =
         Inr (app\<lparr>Worker := (Worker app)[i := (a, AtErrCheck (A (length (calls app)) a))],
                  calls := calls app @ [i]\<rparr>)) \<and>
    (i \<in> set (calls app) \<longrightarrow> Includes (OnLineAssets app) (ID a)) \<and>
    (pc = Queued \<or> pc = AtIncludes \<or> pc = AtPush \<or> pc = AtAssetUpload \<or>
     pc = Finished SkippedAlreadyClaimed \<longrightarrow> i \<notin> set (calls app)) \<and>
    (pc = Finished SkippedAlreadyClaimed \<longrightarrow>
       HaveBeenAlreadyUploaded (Base (Path a)) \<in> set (Logger app))"
proof -
  from assms(1,2) have "closures_ok app0" by (rule fresh_closures_ok)
  with assms(3) have ok: "closures_ok app" by (rule exec_closures_ok)
  from ok assms(4,5) have
    c1: "claimed pc \<longrightarrow> Includes (OnLineAssets app) (ID a)"
    and c2: "pc = Finished SkippedAlreadyClaimed \<longrightarrow>
          HaveBeenAlreadyUploaded (Base (Path a)) \<in> set (Logger app)"
    and c3: "(i \<in> set (calls app)) = called pc"
    by (auto simp: closures_ok_def)
  have called_claimed: "called pc \<Longrightarrow> claimed pc" by (cases pc) auto
  have s1: "pc = AtIncludes \<longrightarrow>
       Upload_step A i app =
         Inr (if Includes (OnLineAssets app) (ID a)
              then app\<lparr>Logger := Logger app @ [HaveBeenAlreadyUploaded (Base (Path a))],
                       Worker := (Worker app)[i := (a, Finished SkippedAlreadyClaimed)]\<rparr>
              else app\<lparr>Worker := (Worker app)[i := (a, AtPush)]\<rparr>)"
    using assms(4,5) by (simp add: Upload_step_def at_def Println_def)
  have s2: "pc = AtPush \<longrightarrow>
       Upload_step A i app =
         Inr (app\<lparr>OnLineAssets := Push (OnLineAssets app) (ID a),
                  Worker := (Worker app)[i := (a, AtAssetUpload)]\<rparr>)"
    using assms(4,5) by (simp add: Upload_step_def at_def)
  have s3: "pc = AtAssetUpload \<longrightarrow>
       Upload_step A i app =
         Inr (app\<lparr>Worker := (Worker app)[i := (a, AtErrCheck (A (length (calls app)) a))],
                  calls := calls app @ [i]\<rparr>)"
    using assms(4,5) by (simp add: Upload_step_def at_def)
  from c1 c3 called_claimed have s4: "i \<in> set (calls app) \<longrightarrow> Includes (OnLineAssets app) (ID a)"
    by blast
  from c3 have s5: "pc = Queued \<or> pc = AtIncludes \<or> pc = AtPush \<or> pc = AtAssetUpload \<or>
     pc = Finished SkippedAlreadyClaimed \<longrightarrow> i \<notin> set (calls app)"
    by auto
  from c1 have s6: "pc = AtAssetUpload \<longrightarrow> Includes (OnLineAssets app) (ID a)" by simp
  from s1 s2 s3 s4 s5 s6 c2 show ?thesis by blast
qed

theorem claim_before_upload_witness:
  "Worker twins = [] \<and> calls twins = [] \<and>
   exec (\<lambda>n a. None) [Dispatch, Dispatch, Dispatch, Dispatch, Work 0, Work 0, Work 0] twins
     = Inr twins_first_claimed \<and>
   Worker twins_first_claimed ! 0 = (b_jpg, AtAssetUpload) \<and>
   Includes (OnLineAssets twins_first_claimed) (ID b_jpg) \<and>
   0 \<notin> set (calls twins_first_claimed) \<and>
   Upload_step (\<lambda>n a. None) 0 twins_first_claimed =
     Inr (twins_first_claimed\<lparr>Worker := [(b_jpg, AtErrCheck None)], calls := [0]\<rparr>)"
proof -
  have fresh: "Worker twins = []" "calls twins = []" by code_simp+
  have run: "exec (\<lambda>n a. None) [Dispatch, Dispatch, Dispatch, Dispatch, Work 0, Work 0, Work 0] twins
     = Inr twins_first_claimed"
    by code_simp
  have len: "0 < length (Worker twins_first_claimed)"
    and pc: "Worker twins_first_claimed ! 0 = (b_jpg, AtAssetUpload)"
    by (simp_all add: twins_first_claimed_def)
  have upd: "(Worker twins_first_claimed)[0 := (b_jpg, AtErrCheck None)] = [(b_jpg, AtErrCheck None)]"
    "calls twins_first_claimed @ [0] = [0]"
    by (simp_all add: twins_first_claimed_def)
  from claim_before_upload[OF fresh run len pc] fresh run pc
  show ?thesis by (simp add: upd)
qed

text \<open>
  Claim C10.  In every run that starts with an empty pool, when the upload of a
  closure has returned an error and the closure handles it (lines 211 to 220),
  then at every later time of the run the registry includes the id, the
  closure has returned with an outcome that is neither \<open>Uploaded\<close> nor
  \<open>SkippedAlreadyClaimed\<close>, it is not among the closures the upload counter
  counts (the counter is the number of closures past line 223), the loop of
  \<open>Run\<close> skips a candidate of the same id as already uploaded, and a closure
  for the same id that reaches line 204 returns by line 206.
\<close>

theorem failed_upload_stays_claimed:
  assumes "Worker app0 = []" and "calls app0 = []" and "exec A es app0 = Inr app"
    and "i < length (Worker app)" and "Worker app ! i = (a, AtErrCheck (Some e))"
    and "exec A (Work i # fs) app = Inr app'"
  shows "Includes (OnLineAssets app') (ID a) \<and>
    i < length (Worker app') \<and>
    (\<exists>out. Worker app' ! i = (a, Finished out) \<and> out \<noteq> Uploaded \<and> out \<noteq> SkippedAlreadyClaimed) \<and>
    \<not> counted (snd (Worker app' ! i)) \<and>
    mediaCount app' = mediaCount app0 + int (length (filter (\<lambda>t. counted (snd t)) (Worker app'))) \<and>
    (\<forall>b rest. run_at app' = AtLoopIncludes \<and> localAssets app' = b # rest \<and> ID b = ID a \<longrightarrow>
       Run_step app' =
         Inr (app'\<lparr>Logger := Logger app' @ [IsAlreadyUploaded (Base (Path b))],
                   localAssets := rest, run_at := AtSelect\<rparr>)) \<and>
    (\<forall>j b. j < length (Worker app') \<and> Worker app' ! j = (b, AtIncludes) \<and> ID b = ID a \<longrightarrow>
       Upload_step A j app' =
         Inr (app'\<lparr>Logger := Logger app' @ [HaveBeenAlreadyUploaded (Base (Path b))],
                   Worker := (Worker app')[j := (b, Finished SkippedAlreadyClaimed)]\<rparr>))"
proof -
  from assms(6) obtain s where s: "Upload_step A i app = Inr s" and rest: "exec A fs s = Inr app'"
    by (auto split: sum.splits)
  from s assms(4,5) obtain out where out: "Worker s ! i = (a, Finished out)"
    "out \<noteq> Uploaded" "out \<noteq> SkippedAlreadyClaimed" and len: "i < length (Worker s)"
    by (auto simp: Upload_step_def at_def Println_def split: if_splits sum.splits)
  from exec_finished_stable[OF rest len out(1)]
  have fin: "i < length (Worker app')" "Worker app' ! i = (a, Finished out)" by simp_all
  from assms(1,2) have "closures_ok app0" by (rule fresh_closures_ok)
  with assms(3) have "closures_ok app" by (rule exec_closures_ok)
  with assms(6) have "closures_ok app'" by (rule exec_closures_ok)
  with fin out(3) have inc: "Includes (OnLineAssets app') (ID a)"
    by (auto simp: closures_ok_def)
  from exec_counted[OF assms(3)] exec_counted[OF assms(6)] assms(1)
  have cnt: "mediaCount app' = mediaCount app0 + int (length (filter (\<lambda>t. counted (snd t)) (Worker app')))"
    by simp
  have loop: "Run_step app' =
         Inr (app'\<lparr>Logger := Logger app' @ [IsAlreadyUploaded (Base (Path b))],
                   localAssets := rest, run_at := AtSelect\<rparr>)"
    if "run_at app' = AtLoopIncludes \<and> localAssets app' = b # rest \<and> ID b = ID a" for b rest
    using that inc by (simp add: Run_step_def Println_def)
  have task: "Upload_step A j app' =
         Inr (app'\<lparr>Logger := Logger app' @ [HaveBeenAlreadyUploaded (Base (Path b))],
                   Worker := (Worker app')[j := (b, Finished SkippedAlreadyClaimed)]\<rparr>)"
    if "j < length (Worker app') \<and> Worker app' ! j = (b, AtIncludes) \<and> ID b = ID a" for j b
    using that inc by (simp add: Upload_step_def at_def Println_def)
  from inc fin out(2,3) cnt loop task show ?thesis by simp
qed

theorem failed_upload_stays_claimed_witness:
  "Worker twins = [] \<and> calls twins = [] \<and>
   exec always_times_out [Dispatch, Dispatch, Dispatch, Dispatch, Work 0, Work 0, Work 0, Work 0] twins
     = Inr twins_failed \<and>
   Worker twins_failed ! 0 = (b_jpg, AtErrCheck (Some (OtherError ''timeout''))) \<and>
   exec always_times_out [Work 0] twins_failed = Inr twins_failure_handled \<and>
   Includes (OnLineAssets twins_failure_handled) (ID b_jpg) \<and>
   Worker twins_failure_handled ! 0 = (b_jpg, Finished FailedOther) \<and>
   mediaCount twins_failure_handled = 0 \<and>
   run_at twins_failure_handled = AtLoopIncludes \<and>
   localAssets twins_failure_handled = [sub_b_jpg] \<and>
   ID sub_b_jpg = ID b_jpg \<and>
   Run_step twins_failure_handled =
     Inr (twins_failure_handled\<lparr>Logger := Logger twins_failure_handled @ [IsAlreadyUploaded ''b.jpg''],
            localAssets := [], run_at := AtSelect\<rparr>)"
proof -
  have fresh: "Worker twins = []" "calls twins = []" by code_simp+
  have run: "exec always_times_out [Dispatch, Dispatch, Dispatch, Dispatch, Work 0, Work 0, Work 0, Work 0] twins
     = Inr twins_failed"
    by code_simp
  have len: "0 < length (Worker twins_failed)"
    and pc: "Worker twins_failed ! 0 = (b_jpg, AtErrCheck (Some (OtherError ''timeout'')))"
    by (simp_all add: twins_failed_def)
  have handle: "exec always_times_out [Work 0] twins_failed = Inr twins_failure_handled"
    by code_simp
  have st: "Worker twins_failure_handled ! 0 = (b_jpg, Finished FailedOther)"
    "mediaCount twins_failure_handled = 0"
    "run_at twins_failure_handled = AtLoopIncludes"
    "localAssets twins_failure_handled = [sub_b_jpg]"
    by (simp_all add: twins_failure_handled_def)
  have same: "ID sub_b_jpg = ID b_jpg" by (simp add: sub_b_jpg_def b_jpg_def)
  have base: "Base (Path sub_b_jpg) = ''b.jpg''" by code_simp
  note inst = failed_upload_stays_claimed[OF fresh run len pc handle]
  from inst have inc: "Includes (OnLineAssets twins_failure_handled) (ID b_jpg)" by blast
  from inst st(3,4) same have "Run_step twins_failure_handled =
     Inr (twins_failure_handled\<lparr>Logger := Logger twins_failure_handled @
            [IsAlreadyUploaded (Base (Path sub_b_jpg))], localAssets := [], run_at := AtSelect\<rparr>)"
    by blast
  then have skip: "Run_step twins_failure_handled =
     Inr (twins_failure_handled\<lparr>Logger := Logger twins_failure_handled @ [IsAlreadyUploaded ''b.jpg''],
            localAssets := [], run_at := AtSelect\<rparr>)"
    unfolding base .
  from fresh run pc handle inc st same skip show ?thesis by blast
qed

section \<open>Where the code departs from the specification\<close>

text \<open>
  Claim C1 fails on the code.  With one executor, two files and a remote
  service that answers every call with the overload error, \<open>Run\<close> pushes both
  closures; the first closes the channel at line 215; the second, pushed before
  that, reaches line 215 with the channel closed, and the built-in
  \<^verbatim>\<open>close\<close> panics.
\<close>

theorem second_close_panics:
  "tooManyServerErrors two_files = Open \<and>
   exec always_overloaded
     [Dispatch, Dispatch, Dispatch, Dispatch, Dispatch, Dispatch,
      Work 0, Work 0, Work 0, Work 0, Work 0] two_files
     = Inr overloaded_late \<and>
   tooManyServerErrors overloaded_late = Closed \<and>
   exec always_overloaded
     [Dispatch, Dispatch, Dispatch, Dispatch, Dispatch, Dispatch,
      Work 0, Work 0, Work 0, Work 0, Work 0, Work 1, Work 1, Work 1, Work 1, Work 1] two_files
     = Inl (Panic ''close of closed channel'')"
  by code_simp

text \<open>
  Claim C2 fails on the code.  Two files of the same name and size, two
  executors, an empty inventory: both closures execute line 204 before either
  executes line 208, so both find the id absent, both push it, both call the
  remote service, and the counter ends at 2.
\<close>

theorem both_twins_uploaded:
  "ID b_jpg = ID sub_b_jpg \<and> OnLineAssets twins = [] \<and>
   exec (\<lambda>n a. None)
     [Dispatch, Dispatch, Dispatch, Dispatch, Dispatch, Dispatch,
      Work 0, Work 1, Work 0, Work 1, Work 0, Work 1, Work 0, Work 1,
      Work 0, Work 1, Work 0, Work 1] twins
     = Inr twins_both_uploaded \<and>
   calls twins_both_uploaded = [0, 1] \<and>
   mediaCount twins_both_uploaded = 2"
  by code_simp

text \<open>
  Claim C6 fails on the code where claim C1 does: a closure that handles the
  overload error while the channel is already closed does not return with
  outcome \<open>FailedFatal\<close>; line 215 panics.
\<close>

theorem overload_after_trip_panics:
  "exec always_overloaded
     [Dispatch, Dispatch, Dispatch, Dispatch, Dispatch, Dispatch,
      Work 0, Work 0, Work 0, Work 0, Work 0, Work 1, Work 1, Work 1, Work 1] two_files
     = Inr overloaded_second_failed \<and>
   Worker overloaded_second_failed ! 0 = (c_jpg, Finished FailedFatal) \<and>
   Worker overloaded_second_failed ! 1 = (d_jpg, AtErrCheck (Some TooManyInternalError)) \<and>
   Upload_step always_overloaded 1 overloaded_second_failed = Inl (Panic ''close of closed channel'')"
  by code_simp

section \<open>Further properties\<close>

text \<open>
  Once the channel is closed it is closed at every later
  time of the run.
\<close>

theorem breaker_never_reopens:
  "exec A es app = Inr app' \<Longrightarrow> tooManyServerErrors app = Closed \<Longrightarrow>
   tooManyServerErrors app' = Closed"
  by (rule exec_invariant[where P = "\<lambda>s. tooManyServerErrors s = Closed"])
     (auto intro: step_closed)

theorem breaker_never_reopens_witness:
  "exec always_overloaded [Dispatch, Dispatch] overloaded_tripped = Inr overloaded_stopped \<and>
   tooManyServerErrors overloaded_tripped = Closed \<and>
   tooManyServerErrors overloaded_stopped = Closed"
proof -
  have run: "exec always_overloaded [Dispatch, Dispatch] overloaded_tripped = Inr overloaded_stopped"
    by code_simp
  have closed: "tooManyServerErrors overloaded_tripped = Closed"
    by (simp add: overloaded_tripped_def)
  from breaker_never_reopens[OF run closed] run closed show ?thesis by simp
qed

text \<open>
  While the channel is open, a closure that handles an error
  of the remote call (lines 211 to 220) takes exactly one of three ways.  A
  local file error or an unsupported medium: the line of line 213, outcome
  \<open>SkippedUnsupported\<close>, the channel untouched.  The overload error: the
  channel is closed, outcome \<open>FailedFatal\<close>, nothing printed.  Any other error:
  the lines of lines 217 and 218, outcome \<open>FailedOther\<close>, the channel
  untouched.  The counter and the registry are as before in all three.
\<close>

theorem failure_classification:
  assumes "i < length (Worker app)" and "Worker app ! i = (a, AtErrCheck (Some e))"
    and "tooManyServerErrors app = Open"
  shows "Upload_step A i app =
     Inr (if e = LocalFileError \<or> e = UnsupportedMedia
          then app\<lparr>Logger := Logger app @ [CantUploadYellow (Path a) e],
                   Worker := (Worker app)[i := (a, Finished SkippedUnsupported)]\<rparr>
          else if e = TooManyInternalError
          then app\<lparr>Worker := (Worker app)[i := (a, Finished FailedFatal)],
                   tooManyServerErrors := Closed\<rparr>
          else app\<lparr>Logger := Logger app @ [CantUploadRed (Path a), ErrorRed e],
                   Worker := (Worker app)[i := (a, Finished FailedOther)]\<rparr>)"
  using assms by (simp add: Upload_step_def at_def Println_def close_def)

theorem failure_classification_witness:
  "Worker twins_failed ! 0 = (b_jpg, AtErrCheck (Some (OtherError ''timeout''))) \<and>
   tooManyServerErrors twins_failed = Open \<and>
   Upload_step always_times_out 0 twins_failed = Inr twins_failure_handled"
proof -
  have len: "0 < length (Worker twins_failed)"
    and pc: "Worker twins_failed ! 0 = (b_jpg, AtErrCheck (Some (OtherError ''timeout'')))"
    and op: "tooManyServerErrors twins_failed = Open"
    by (simp_all add: twins_failed_def)
  have res: "twins_failed\<lparr>Logger := Logger twins_failed @
        [CantUploadRed (Path b_jpg), ErrorRed (OtherError ''timeout'')],
      Worker := (Worker twins_failed)[0 := (b_jpg, Finished FailedOther)]\<rparr> = twins_failure_handled"
    by code_simp
  from failure_classification[OF len pc op, of always_times_out] pc op show ?thesis
    by (simp add: res)
qed

text \<open>
  In every run that starts with an empty pool the upload
  counter has grown by the number of closures past line 223.
\<close>

theorem counter_counts_uploads:
  "Worker app0 = [] \<Longrightarrow> exec A es app0 = Inr app \<Longrightarrow>
   mediaCount app = mediaCount app0 + int (length (filter (\<lambda>t. counted (snd t)) (Worker app)))"
  using exec_counted[of A es app0 app] by simp

theorem counter_counts_uploads_witness:
  "Worker twins = [] \<and> mediaCount twins = 0 \<and>
   exec (\<lambda>n a. None)
     [Dispatch, Dispatch, Dispatch, Dispatch, Dispatch, Dispatch,
      Work 0, Work 1, Work 0, Work 1, Work 0, Work 1, Work 0, Work 1,
      Work 0, Work 1, Work 0, Work 1] twins
     = Inr twins_both_uploaded \<and>
   mediaCount twins_both_uploaded = 2 \<and>
   length (filter (\<lambda>t. counted (snd t)) (Worker twins_both_uploaded)) = 2"
proof -
  have fresh: "Worker twins = []" and zero: "mediaCount twins = 0" by code_simp+
  have run: "exec (\<lambda>n a. None)
     [Dispatch, Dispatch, Dispatch, Dispatch, Dispatch, Dispatch,
      Work 0, Work 1, Work 0, Work 1, Work 0, Work 1, Work 0, Work 1,
      Work 0, Work 1, Work 0, Work 1] twins
     = Inr twins_both_uploaded"
    by code_simp
  have two: "mediaCount twins_both_uploaded = 2" by (simp add: twins_both_uploaded_def)
  from counter_counts_uploads[OF fresh run] fresh zero run two show ?thesis by simp
qed

lemma two_in_filter:
  assumes "i < length xs" and "j < length xs" and "i \<noteq> j" and "P (xs ! i)" and "P (xs ! j)"
  shows "2 \<le> length (filter P xs)"
proof -
  have "{i, j} \<subseteq> {k. k < length xs \<and> P (xs ! k)}" using assms by auto
  then have "card {i, j} \<le> card {k. k < length xs \<and> P (xs ! k)}"
    by (rule card_mono[rotated]) simp
  with assms(3) show ?thesis by (simp add: length_filter_conv_card)
qed

lemma Upload_step_shape:
  assumes "Upload_step A k app = Inr app'"
  shows "k < length (Worker app) \<and> Threads app' = Threads app \<and>
    (\<exists>pc'. Worker app' = (Worker app)[k := (fst (Worker app ! k), pc')] \<and>
       (admitted pc' \<and> \<not> admitted (snd (Worker app ! k)) \<longrightarrow>
          snd (Worker app ! k) = AtIncludes \<and> \<not> Includes (OnLineAssets app) (ID (fst (Worker app ! k)))) \<and>
       (busy pc' \<and> \<not> busy (snd (Worker app ! k)) \<longrightarrow>
          length (filter (\<lambda>t. busy (snd t)) (Worker app)) < Threads app))"
proof -
  from assms have k: "k < length (Worker app)" by (auto simp: Upload_step_def split: if_splits)
  obtain a pc where w: "Worker app ! k = (a, pc)" by (cases "Worker app ! k")
  from assms k w show ?thesis
    by (cases pc)
       (auto simp: Upload_step_def at_def Println_def split: if_splits option.splits sum.splits)
qed

lemma Upload_step_one_at_a_time:
  assumes u: "Upload_step A k app = Inr app'" and inv: "one_at_a_time app"
  shows "one_at_a_time app'"
proof -
  from inv have ok: "closures_ok app" and th: "Threads app \<le> 1"
    and one: "length (filter (\<lambda>t. busy (snd t)) (Worker app)) \<le> 1"
    and uniq: "\<And>i j. i < length (Worker app) \<Longrightarrow> j < length (Worker app) \<Longrightarrow> i \<noteq> j \<Longrightarrow>
        ID (fst (Worker app ! i)) = ID (fst (Worker app ! j)) \<Longrightarrow>
        \<not> (admitted (snd (Worker app ! i)) \<and> admitted (snd (Worker app ! j)))"
    by (auto simp: one_at_a_time_def)
  from Upload_step_shape[OF u] obtain pc' where k: "k < length (Worker app)"
    and th': "Threads app' = Threads app"
    and W: "Worker app' = (Worker app)[k := (fst (Worker app ! k), pc')]"
    and adm: "admitted pc' \<and> \<not> admitted (snd (Worker app ! k)) \<longrightarrow>
          snd (Worker app ! k) = AtIncludes \<and> \<not> Includes (OnLineAssets app) (ID (fst (Worker app ! k)))"
    and bsy: "busy pc' \<and> \<not> busy (snd (Worker app ! k)) \<longrightarrow>
          length (filter (\<lambda>t. busy (snd t)) (Worker app)) < Threads app"
    by blast
  have ok': "closures_ok app'" using u ok by (rule Upload_step_closures_ok)
  have len: "length (Worker app') = length (Worker app)" using W by simp
  \<comment> \<open>the number of running closures\<close>
  from filter_update_length[OF k, of "\<lambda>t. busy (snd t)" "(fst (Worker app ! k), pc')"]
  have cnt: "length (filter (\<lambda>t. busy (snd t)) (Worker app')) + (if busy (snd (Worker app ! k)) then 1 else 0) =
      length (filter (\<lambda>t. busy (snd t)) (Worker app)) + (if busy pc' then 1 else 0)"
    unfolding W by simp
  have one': "length (filter (\<lambda>t. busy (snd t)) (Worker app')) \<le> 1"
  proof (cases "busy pc' \<and> \<not> busy (snd (Worker app ! k))")
    case True
    with bsy th have "length (filter (\<lambda>t. busy (snd t)) (Worker app)) = 0" by linarith
    with cnt True show ?thesis by (simp split: if_splits)
  next
    case False
    with cnt one show ?thesis by (auto split: if_splits)
  qed
  \<comment> \<open>at most one admitted closure for an id\<close>
  have new: "\<not> (admitted pc' \<and> admitted (snd (Worker app ! j)))"
    if j: "j < length (Worker app)" and jk: "j \<noteq> k"
      and same: "ID (fst (Worker app ! k)) = ID (fst (Worker app ! j))" for j
  proof (cases "admitted (snd (Worker app ! k))")
    case True
    with uniq[OF k j] jk same show ?thesis by auto
  next
    case False
    show ?thesis
    proof
      assume both: "admitted pc' \<and> admitted (snd (Worker app ! j))"
      with adm False have at: "snd (Worker app ! k) = AtIncludes"
        and absent: "\<not> Includes (OnLineAssets app) (ID (fst (Worker app ! k)))" by simp_all
      from both have "claimed (snd (Worker app ! j)) \<or> snd (Worker app ! j) = AtPush"
        by (cases "snd (Worker app ! j)") auto
      then show False
      proof
        assume "claimed (snd (Worker app ! j))"
        with ok j have "Includes (OnLineAssets app) (ID (fst (Worker app ! j)))"
          by (simp add: closures_ok_def)
        with absent same show False by simp
      next
        assume "snd (Worker app ! j) = AtPush"
        with at have "busy (snd (Worker app ! j))" "busy (snd (Worker app ! k))" by simp_all
        from two_in_filter[OF j k jk, of "\<lambda>t. busy (snd t)"] this one show False by simp
      qed
    qed
  qed
  have uniq': "\<not> (admitted (snd (Worker app' ! i)) \<and> admitted (snd (Worker app' ! j)))"
    if i: "i < length (Worker app')" and j: "j < length (Worker app')" and ij: "i \<noteq> j"
      and same: "ID (fst (Worker app' ! i)) = ID (fst (Worker app' ! j))" for i j
  proof -
    have fst_same: "fst (Worker app' ! n) = fst (Worker app ! n)" if "n < length (Worker app)" for n
      using that W by (cases "n = k") simp_all
    from i j len have i0: "i < length (Worker app)" and j0: "j < length (Worker app)" by simp_all
    from same fst_same[OF i0] fst_same[OF j0]
    have same0: "ID (fst (Worker app ! i)) = ID (fst (Worker app ! j))" by simp
    consider "i = k" | "j = k" | "i \<noteq> k" "j \<noteq> k" by blast
    then show ?thesis
    proof cases
      case 1
      with ij have jk: "j \<noteq> k" by simp
      from new[OF j0 jk] same0 1 W k jk show ?thesis by auto
    next
      case 2
      with ij have ik: "i \<noteq> k" by simp
      from new[OF i0 ik] same0 2 W k ik show ?thesis by auto
    next
      case 3
      with uniq[OF i0 j0 ij same0] W show ?thesis by simp
    qed
  qed
  from th th' have "Threads app' \<le> 1" by simp
  with ok' one' uniq' show ?thesis unfolding one_at_a_time_def by simp
qed

lemma Run_step_one_at_a_time:
  assumes r: "Run_step app = Inr app'" and inv: "one_at_a_time app"
  shows "one_at_a_time app'"
proof -
  from inv have ok: "closures_ok app" and th: "Threads app \<le> 1"
    and one: "length (filter (\<lambda>t. busy (snd t)) (Worker app)) \<le> 1"
    and uniq: "\<And>i j. i < length (Worker app) \<Longrightarrow> j < length (Worker app) \<Longrightarrow> i \<noteq> j \<Longrightarrow>
        ID (fst (Worker app ! i)) = ID (fst (Worker app ! j)) \<Longrightarrow>
        \<not> (admitted (snd (Worker app ! i)) \<and> admitted (snd (Worker app ! j)))"
    by (auto simp: one_at_a_time_def)
  have ok': "closures_ok app'" using r ok by (rule Run_step_closures_ok)
  from Run_step_frame[OF r] th have th': "Threads app' \<le> 1" by simp
  from Run_step_Worker[OF r] show ?thesis
  proof
    assume "Worker app' = Worker app"
    with ok' th' one uniq show ?thesis unfolding one_at_a_time_def by simp
  next
    assume "\<exists>a. Worker app' = Worker app @ [(a, Queued)]"
    then obtain a where W: "Worker app' = Worker app @ [(a, Queued)]" ..
    have one': "length (filter (\<lambda>t. busy (snd t)) (Worker app')) \<le> 1" using one W by simp
    have uniq': "\<not> (admitted (snd (Worker app' ! i)) \<and> admitted (snd (Worker app' ! j)))"
      if i: "i < length (Worker app')" and j: "j < length (Worker app')" and ij: "i \<noteq> j"
        and same: "ID (fst (Worker app' ! i)) = ID (fst (Worker app' ! j))" for i j
    proof (cases "i < length (Worker app) \<and> j < length (Worker app)")
      case True
      with uniq[of i j] ij same W show ?thesis by (simp add: nth_append)
    next
      case False
      with i j W have "Worker app' ! i = (a, Queued) \<or> Worker app' ! j = (a, Queued)"
        by (auto simp: nth_append)
      then show ?thesis by auto
    qed
    from ok' th' one' uniq' show ?thesis unfolding one_at_a_time_def by simp
  qed
qed

text \<open>
  With at most one executor, in every run that starts with an empty pool, two
  closures for the same id never both call the remote service.
\<close>

theorem single_executor_uploads_once:
  assumes "Worker app0 = []" and "calls app0 = []" and "Threads app0 \<le> 1"
    and "exec A es app0 = Inr app"
    and "i < length (Worker app)" and "j < length (Worker app)" and "i \<noteq> j"
    and "ID (fst (Worker app ! i)) = ID (fst (Worker app ! j))"
  shows "\<not> (i \<in> set (calls app) \<and> j \<in> set (calls app))"
proof -
  from assms(1-3) have "one_at_a_time app0"
    by (simp add: one_at_a_time_def closures_ok_def)
  have "one_at_a_time app"
  proof (rule exec_invariant[where P = one_at_a_time, OF _ assms(4)])
    fix e s s'
    assume "step A e s = Inr s'" and "one_at_a_time s"
    then show "one_at_a_time s'"
      by (cases e) (auto intro: Run_step_one_at_a_time Upload_step_one_at_a_time)
  qed fact
  then have ok: "closures_ok app"
    and uniq: "\<not> (admitted (snd (Worker app ! i)) \<and> admitted (snd (Worker app ! j)))"
    using assms(5-8) by (auto simp: one_at_a_time_def)
  have adm: "called pc \<Longrightarrow> admitted pc" for pc by (cases pc) auto
  from ok assms(5,6) have "(i \<in> set (calls app)) = called (snd (Worker app ! i))"
    "(j \<in> set (calls app)) = called (snd (Worker app ! j))"
    by (simp_all add: closures_ok_def)
  with uniq adm show ?thesis by blast
qed

theorem single_executor_uploads_once_witness:
  "Worker twins_single = [] \<and> calls twins_single = [] \<and> Threads twins_single \<le> 1 \<and>
   exec (\<lambda>n a. None)
     [Dispatch, Dispatch, Dispatch, Dispatch, Dispatch, Dispatch,
      Work 0, Work 0, Work 0, Work 0, Work 0, Work 0, Work 1, Work 1] twins_single
     = Inr twins_single_done \<and>
   ID (fst (Worker twins_single_done ! 0)) = ID (fst (Worker twins_single_done ! 1)) \<and>
   calls twins_single_done = [0] \<and>
   \<not> (0 \<in> set (calls twins_single_done) \<and> 1 \<in> set (calls twins_single_done))"
proof -
  have fresh: "Worker twins_single = []" "calls twins_single = []" "Threads twins_single \<le> 1"
    by code_simp+
  have run: "exec (\<lambda>n a. None)
     [Dispatch, Dispatch, Dispatch, Dispatch, Dispatch, Dispatch,
      Work 0, Work 0, Work 0, Work 0, Work 0, Work 0, Work 1, Work 1] twins_single
     = Inr twins_single_done"
    by code_simp
  have len: "0 < length (Worker twins_single_done)" "1 < length (Worker twins_single_done)"
    and same: "ID (fst (Worker twins_single_done ! 0)) = ID (fst (Worker twins_single_done ! 1))"
    and hist: "calls twins_single_done = [0]"
    by (simp_all add: twins_single_done_def b_jpg_def sub_b_jpg_def)
  have ne: "(0::nat) \<noteq> 1" by simp
  from single_executor_uploads_once[OF fresh run len ne same] fresh run same hist
  show ?thesis by simp
qed

end
